theory Spec2Isabelle
  imports Complex_Main "HOL-Library.Log_Nat"
begin

section \<open>Bulk load of the SIREN file (import\_csv\_to\_mysql.py)\<close>

subsection \<open>Records and the translation table\<close>

text \<open>
  A CSV cell is a Python \<open>str\<close>; \<open>csv.DictReader\<close> fills the fields of a short line
  with \<open>None\<close>. A value is therefore a string or \<open>None\<close>, and \<open>None\<close> is also what
  pymysql sends as SQL NULL.
\<close>

type_synonym py_value = "string option"

text \<open>
  The row that \<open>csv.DictReader\<close> yields is a dict from field name to value; a field
  that the header does not have is simply not a key.
\<close>

type_synonym source_record = "string \<rightharpoonup> py_value"

text \<open>
  \<open>mapped_row\<close> is a dict that is later read in insertion order
  (\<open>list(batch[0].keys())\<close>), so it is an association list with distinct keys.
\<close>

type_synonym target_record = "(string \<times> py_value) list"

text \<open>\<open>COLUMN_MAPPING\<close>, lines 37-72, in the order of the dict literal.\<close>

definition COLUMN_MAPPING :: "(string \<times> string) list" where
  "COLUMN_MAPPING = [
    (''siren'', ''siren''),
    (''statutDiffusionUniteLegale'', ''statut_diffusion_unite_legale''),
    (''unitePurgeeUniteLegale'', ''unite_purgee_unite_legale''),
    (''dateCreationUniteLegale'', ''date_creation_unite_legale''),
    (''sigleUniteLegale'', ''sigle_unite_legale''),
    (''sexeUniteLegale'', ''sexe_unite_legale''),
    (''prenom1UniteLegale'', ''prenom_1_unite_legale''),
    (''prenom2UniteLegale'', ''prenom_2_unite_legale''),
    (''prenom3UniteLegale'', ''prenom_3_unite_legale''),
    (''prenom4UniteLegale'', ''prenom_4_unite_legale''),
    (''prenomUsuelUniteLegale'', ''prenom_usuel_unite_legale''),
    (''pseudonymeUniteLegale'', ''pseudonyme_unite_legale''),
    (''identifiantAssociationUniteLegale'', ''identifiant_association_unite_legale''),
    (''trancheEffectifsUniteLegale'', ''tranche_effectifs_unite_legale''),
    (''anneeEffectifsUniteLegale'', ''annee_effectifs_unite_legale''),
    (''dateDernierTraitementUniteLegale'', ''date_dernier_traitement_unite_legale''),
    (''nombrePeriodesUniteLegale'', ''nombre_periodes_unite_legale''),
    (''categorieEntreprise'', ''categorie_entreprise''),
    (''anneeCategorieEntreprise'', ''annee_categorie_entreprise''),
    (''dateDebut'', ''date_debut''),
    (''etatAdministratifUniteLegale'', ''etat_administratif_unite_legale''),
    (''nomUniteLegale'', ''nom_unite_legale''),
    (''nomUsageUniteLegale'', ''nom_usage_unite_legale''),
    (''denominationUniteLegale'', ''denomination_unite_legale''),
    (''denominationUsuelle1UniteLegale'', ''denomination_usuelle_1_unite_legale''),
    (''denominationUsuelle2UniteLegale'', ''denomination_usuelle_2_unite_legale''),
    (''denominationUsuelle3UniteLegale'', ''denomination_usuelle_3_unite_legale''),
    (''categorieJuridiqueUniteLegale'', ''categorie_juridique_unite_legale''),
    (''activitePrincipaleUniteLegale'', ''activite_principale_unite_legale''),
    (''nomenclatureActivitePrincipaleUniteLegale'',
       ''nomenclature_activite_principale_unite_legale''),
    (''nicSiegeUniteLegale'', ''nic_siege_unite_legale''),
    (''economieSocialeSolidaireUniteLegale'', ''economie_sociale_solidaire_unite_legale''),
    (''societeMissionUniteLegale'', ''societe_mission_unite_legale''),
    (''caractereEmployeurUniteLegale'', ''caractere_employeur_unite_legale'')]"

text \<open>\<open>d[k] = v\<close> on a dict kept in insertion order: an existing key keeps its
  place, a new key goes to the end.\<close>

fun dict_set :: "('k \<times> 'v) list \<Rightarrow> 'k \<Rightarrow> 'v \<Rightarrow> ('k \<times> 'v) list" where
  "dict_set [] k v = [(k, v)]"
| "dict_set ((k', v') # d) k v =
     (if k' = k then (k', v) # d else (k', v') # dict_set d k v)"

text \<open>\<open>row.get(csv_col, None)\<close>: the value, or \<open>None\<close> for a missing key.\<close>

definition row_get :: "source_record \<Rightarrow> string \<Rightarrow> py_value" where
  "row_get row csv_col = (case row csv_col of None \<Rightarrow> None | Some value \<Rightarrow> value)"

text \<open>The body of the inner loop, lines 148-153, for one item of the table.\<close>

definition map_column :: "source_record \<Rightarrow> target_record \<Rightarrow> string \<times> string \<Rightarrow> target_record" where
  "map_column row mapped_row item =
     (case item of (csv_col, db_col) \<Rightarrow>
        (let value = row_get row csv_col
         in if value = Some '''' \<or> value = None
            then dict_set mapped_row db_col None
            else dict_set mapped_row db_col value))"

text \<open>Lines 146-153: \<open>mapped_row = {}\<close>, then one assignment per item of
  \<open>COLUMN_MAPPING.items()\<close>.\<close>

definition map_row :: "source_record \<Rightarrow> target_record" where
  "map_row row = foldl (map_column row) [] COLUMN_MAPPING"


subsection \<open>Errors and the database connection\<close>

text \<open>Every exception that the modelled code can meet is a value.\<close>

datatype py_error = KeyError string | DatabaseError | ReadError
  | ZeroDivisionError | OverflowError

text \<open>
  The query of \<open>insert_batch\<close> is the text
  \<open>INSERT IGNORE INTO unite_legale (columns_str) VALUES (placeholders)\<close>; it is kept
  as its three varying parts: the table, the column names in order, and the
  placeholders.
\<close>

datatype statement = InsertIgnore string "string list" "string list"

text \<open>
  The pymysql connection is outside the repository. The code uses three of its
  operations, taken here as parameters over an arbitrary connection state \<open>'c\<close>:
  \<^item> \<open>cursor.executemany(query, values)\<close> raises (\<open>Inl\<close>, with the state the failure
    leaves) or succeeds with \<open>cursor.rowcount\<close> and the new state;
  \<^item> \<open>connection.commit()\<close> raises or succeeds;
  \<^item> \<open>connection.rollback()\<close>.
\<close>

record 'c driver =
  executemany :: "'c \<Rightarrow> statement \<Rightarrow> py_value list list \<Rightarrow> (py_error \<times> 'c) + (int \<times> 'c)"
  commit :: "'c \<Rightarrow> (py_error \<times> 'c) + 'c"
  rollback :: "'c \<Rightarrow> 'c"

subsection \<open>insert\_batch\<close>

text \<open>\<open>tuple(row[col] for col in columns)\<close>: \<open>row[col]\<close> raises \<open>KeyError\<close> on a
  missing key.\<close>

fun row_values :: "string list \<Rightarrow> target_record \<Rightarrow> py_error + py_value list" where
  "row_values [] row = Inr []"
| "row_values (col # columns) row =
     (case map_of row col of
        None \<Rightarrow> Inl (KeyError col)
      | Some v \<Rightarrow>
          (case row_values columns row of
             Inl e \<Rightarrow> Inl e
           | Inr vs \<Rightarrow> Inr (v # vs)))"

text \<open>Line 215, the list comprehension over the rows of the batch.\<close>

fun batch_values :: "string list \<Rightarrow> target_record list \<Rightarrow> py_error + py_value list list" where
  "batch_values columns [] = Inr []"
| "batch_values columns (row # rows) =
     (case row_values columns row of
        Inl e \<Rightarrow> Inl e
      | Inr t \<Rightarrow>
          (case batch_values columns rows of
             Inl e \<Rightarrow> Inl e
           | Inr ts \<Rightarrow> Inr (t # ts)))"

text \<open>
  Lines 199-224. The result is the returned count and the connection state. Every
  exception inside the \<open>try\<close> (a \<open>KeyError\<close> while the values are prepared, or
  whatever \<open>executemany\<close> raises) is caught, printed, and turned into \<open>return 0\<close>.
\<close>

definition insert_batch :: "'c driver \<Rightarrow> 'c \<Rightarrow> target_record list \<Rightarrow> int \<times> 'c" where
  "insert_batch db conn rows =
     (case rows of
        [] \<Rightarrow> (0, conn)
      | first # _ \<Rightarrow>
          (let columns = map fst first;
               placeholders = replicate (length columns) ''%s'';
               query = InsertIgnore ''unite_legale'' columns placeholders
           in case batch_values columns rows of
                Inl e \<Rightarrow> (0, conn)
              | Inr values \<Rightarrow>
                  (case executemany db conn query values of
                     Inl (e, conn') \<Rightarrow> (0, conn')
                   | Inr (rowcount, conn') \<Rightarrow>
                       (if rowcount > 0 then rowcount else 0, conn'))))"

subsection \<open>import\_csv\<close>

text \<open>The local variables of \<open>import_csv\<close> that the loop updates, and the
  connection.\<close>

record 'c import_state =
  batch :: "target_record list"
  total_rows :: int
  inserted_rows :: int
  skipped_rows :: int
  connection :: 'c

text \<open>Lines 159-161 and again 167-169: one call of \<open>insert_batch\<close> and the two
  counter updates that fold its result.\<close>

definition load_batch :: "'c driver \<Rightarrow> 'c import_state \<Rightarrow> 'c import_state" where
  "load_batch db s =
     (case insert_batch db (connection s) (batch s) of
        (inserted, conn') \<Rightarrow>
          s\<lparr>inserted_rows := inserted_rows s + inserted,
            skipped_rows := skipped_rows s + (int (length (batch s)) - inserted),
            connection := conn'\<rparr>)"

text \<open>
  The \<open>for row in reader\<close> loop, lines 142-163. The reader is the sequence of
  what each step of the iteration does: it yields a row (\<open>Inr\<close>) or raises
  (\<open>Inl\<close>, for instance on undecodable bytes), which leaves the loop with the
  state reached so far.
\<close>

fun import_rows :: "'c driver \<Rightarrow> int \<Rightarrow> (py_error + source_record) list \<Rightarrow> 'c import_state
    \<Rightarrow> (py_error \<times> 'c import_state) + 'c import_state" where
  "import_rows db batch_size [] s = Inr s"
| "import_rows db batch_size (Inl e # reader) s = Inl (e, s)"
| "import_rows db batch_size (Inr row # reader) s =
     (let s1 = s\<lparr>total_rows := total_rows s + 1\<rparr>;
          s2 = s1\<lparr>batch := batch s1 @ [map_row row]\<rparr>
      in if int (length (batch s2)) \<ge> batch_size
         then import_rows db batch_size reader ((load_batch db s2)\<lparr>batch := []\<rparr>)
         else import_rows db batch_size reader s2)"

text \<open>Lines 137-140, the variables before the loop.\<close>

definition initial_state :: "'c \<Rightarrow> 'c import_state" where
  "initial_state conn =
     \<lparr>batch = [], total_rows = 0, inserted_rows = 0, skipped_rows = 0, connection = conn\<rparr>"

text \<open>
  How a run ends: the summary is printed after the commit (the three counters, and
  the connection state), or the \<open>except\<close> branch rolls back and calls
  \<open>sys.exit(1)\<close>.
\<close>

datatype 'c outcome = Imported int int int 'c | Exit1 'c

text \<open>
  The \<open>try\<close> block of \<open>import_csv\<close>, lines 129-183, on a file that exists and an
  open connection, without \<open>--truncate\<close>.
\<close>

definition import_csv :: "'c driver \<Rightarrow> (py_error + source_record) list \<Rightarrow> int \<Rightarrow> 'c \<Rightarrow> 'c outcome" where
  "import_csv db reader batch_size conn =
     (case import_rows db batch_size reader (initial_state conn) of
        Inl (e, s) \<Rightarrow> Exit1 (rollback db (connection s))
      | Inr s \<Rightarrow>
          (let s' = (if batch s \<noteq> [] then load_batch db s else s)
           in case commit db (connection s') of
                Inl (e, conn') \<Rightarrow> Exit1 (rollback db conn')
              | Inr conn' \<Rightarrow>
                  Imported (total_rows s') (inserted_rows s') (skipped_rows s') conn'))"

subsection \<open>The store\<close>

text \<open>
  Modelled from the spec: the target store, a MySQL table behind pymysql, is not code
  of this repository. The spec describes it as a single table with one row per
  entity, uniquely keyed by its natural identifier (the \<open>siren\<close> column), on which
  insert-or-ignore silently skips a row whose key collides with an existing row,
  inside a transaction that is committed or rolled back as a whole. \<open>rows_committed\<close>
  is the table as other sessions see it, \<open>rows_pending\<close> the rows that the open
  transaction has inserted.
\<close>

record mysql =
  rows_committed :: "target_record list"
  rows_pending :: "target_record list"

definition unique_key :: "target_record \<Rightarrow> py_value option" where
  "unique_key r = map_of r ''siren''"

definition visible_rows :: "mysql \<Rightarrow> target_record list" where
  "visible_rows st = rows_committed st @ rows_pending st"

text \<open>One row of a multi-row \<open>INSERT IGNORE\<close>: skipped when its key is already in
  the table, else inserted and counted.\<close>

definition insert_ignore_row :: "int \<times> mysql \<Rightarrow> target_record \<Rightarrow> int \<times> mysql" where
  "insert_ignore_row acc r =
     (case acc of (n, st) \<Rightarrow>
        if unique_key r \<in> set (map unique_key (visible_rows st))
        then (n, st)
        else (n + 1, st\<lparr>rows_pending := rows_pending st @ [r]\<rparr>))"

text \<open>
  \<open>rejects\<close> stands for every reason other than a key conflict for which the store
  refuses a statement (a value too long for its column, a lost connection): the
  statement then raises and changes nothing. Otherwise the row count is the number of
  rows inserted.
\<close>

definition mysql_executemany ::
    "(mysql \<Rightarrow> statement \<Rightarrow> py_value list list \<Rightarrow> bool)
     \<Rightarrow> mysql \<Rightarrow> statement \<Rightarrow> py_value list list \<Rightarrow> (py_error \<times> mysql) + (int \<times> mysql)" where
  "mysql_executemany rejects st query values =
     (if rejects st query values then Inl (DatabaseError, st)
      else (case query of InsertIgnore tbl columns placeholders \<Rightarrow>
              Inr (foldl insert_ignore_row (0, st) (map (zip columns) values))))"

definition mysql_commit :: "mysql \<Rightarrow> (py_error \<times> mysql) + mysql" where
  "mysql_commit st =
     Inr (st\<lparr>rows_committed := rows_committed st @ rows_pending st, rows_pending := []\<rparr>)"

definition mysql_rollback :: "mysql \<Rightarrow> mysql" where
  "mysql_rollback st = st\<lparr>rows_pending := []\<rparr>"

definition mysql_driver :: "(mysql \<Rightarrow> statement \<Rightarrow> py_value list list \<Rightarrow> bool) \<Rightarrow> mysql driver" where
  "mysql_driver rejects =
     \<lparr>executemany = mysql_executemany rejects, commit = mysql_commit,
      rollback = mysql_rollback\<rparr>"

text \<open>
  To observe which statements a run sends, any driver can be wrapped so that the
  connection state also carries the list of the \<open>executemany\<close> calls made so far,
  whether they succeeded or raised.
\<close>

type_synonym call = "statement \<times> py_value list list"

definition logged :: "'c driver \<Rightarrow> ('c \<times> call list) driver" where
  "logged db =
     \<lparr>executemany = (\<lambda>cl query values.
        (case executemany db (fst cl) query values of
           Inl (e, conn') \<Rightarrow> Inl (e, (conn', snd cl @ [(query, values)]))
         | Inr (n, conn') \<Rightarrow> Inr (n, (conn', snd cl @ [(query, values)])))),
      commit = (\<lambda>cl.
        (case commit db (fst cl) of
           Inl (e, conn') \<Rightarrow> Inl (e, (conn', snd cl))
         | Inr conn' \<Rightarrow> Inr (conn', snd cl))),
      rollback = (\<lambda>cl. (rollback db (fst cl), snd cl))\<rparr>"

text \<open>The connection state in which a run ends.\<close>

fun final_connection :: "'c outcome \<Rightarrow> 'c" where
  "final_connection (Imported n_read n_inserted n_skipped conn) = conn"
| "final_connection (Exit1 conn) = conn"



section \<open>Pagination and collection views (api-mysql/main.py, api-spark/main.py)\<close>

subsection \<open>Python's true division of integers, and \<open>math.ceil\<close>\<close>

text \<open>
  \<open>total / limit\<close> on two Python integers is the true division: its result is a
  float, the IEEE 754 double nearest to the exact quotient, ties going to the even
  significand. A double is kept here as the rational number that it is.
\<close>

definition round_half_even :: "rat \<Rightarrow> int" where
  "round_half_even x =
     (let f = \<lfloor>x\<rfloor>; d = x - of_int f
      in if d < 1 / 2 then f
         else if 1 / 2 < d then f + 1
         else if even f then f else f + 1)"

text \<open>For positive \<open>p\<close> and \<open>q\<close>, the exponent \<open>e\<close> with \<open>2\<^sup>e \<le> p / q < 2\<^sup>e\<^sup>+\<^sup>1\<close>.\<close>

definition floor_log2 :: "int \<Rightarrow> int \<Rightarrow> int" where
  "floor_log2 p q =
     (let d = bitlen p - bitlen q
      in if 2 powi d \<le> (of_int p / of_int q :: rat) then d else d - 1)"

text \<open>
  The nearest double of a positive rational: 53 significant bits at the exponent of
  the number, and the fixed spacing \<open>2\<^sup>-\<^sup>1\<^sup>0\<^sup>7\<^sup>4\<close> below \<open>2\<^sup>-\<^sup>1\<^sup>0\<^sup>2\<^sup>2\<close> (subnormal numbers,
  down to zero).
\<close>

definition nearest_double :: "int \<Rightarrow> int \<Rightarrow> rat" where
  "nearest_double p q =
     (let e = max (floor_log2 p q) (- 1022);
          ulp = 2 powi (e - 52)
      in of_int (round_half_even (of_int p / of_int q / ulp)) * ulp)"

text \<open>
  \<open>a / b\<close>: \<open>ZeroDivisionError\<close> for a zero divisor, \<open>OverflowError\<close> ("integer
  division result too large for a float") when the rounded quotient is beyond the
  largest double, else the nearest double with the sign of the quotient.
\<close>

definition py_truediv :: "int \<Rightarrow> int \<Rightarrow> py_error + rat" where
  "py_truediv a b =
     (if b = 0 then Inl ZeroDivisionError
      else if a = 0 then Inr 0
      else (let magnitude = nearest_double \<bar>a\<bar> \<bar>b\<bar>
            in if 2 powi 1024 \<le> magnitude then Inl OverflowError
               else Inr (if (a < 0) = (b < 0) then magnitude else - magnitude)))"

text \<open>\<open>math.ceil\<close> of a float is the exact integer ceiling of its value.\<close>

definition math_ceil :: "rat \<Rightarrow> int" where
  "math_ceil x = \<lceil>x\<rceil>"

text \<open>
  \<open>total_pages = math.ceil(total / limit) if total > 0 else 1\<close>: the same line in
  \<open>get_entreprises_by_activite\<close> (218), \<open>search_entreprises_by_name\<close> (305) and
  \<open>create_pagination\<close> (api-spark, 83).
\<close>

definition compute_total_pages :: "int \<Rightarrow> int \<Rightarrow> py_error + int" where
  "compute_total_pages total_count limit =
     (if total_count > 0
      then (case py_truediv total_count limit of
              Inl e \<Rightarrow> Inl e
            | Inr x \<Rightarrow> Inr (math_ceil x))
      else Inr 1)"

subsection \<open>Formatting\<close>

text \<open>\<open>str\<close> of an integer, as an f-string inserts it.\<close>

function str_nat :: "nat \<Rightarrow> string" where
  "str_nat n =
     (if n < 10 then [''0123456789'' ! n]
      else str_nat (n div 10) @ [''0123456789'' ! (n mod 10)])"
  by pat_completeness auto
termination
  by (relation "measure id") auto

declare str_nat.simps [simp del]

definition str_int :: "int \<Rightarrow> string" where
  "str_int i = (if i < 0 then ''-'' @ str_nat (nat (- i)) else str_nat (nat i))"

subsection \<open>The Hydra view and the pagination metadata\<close>

text \<open>
  \<open>schemas.HydraView\<close>: the fields \<open>@id\<close>, \<open>@type\<close>, and the four optional links,
  \<open>None\<close> when absent. The dict that \<open>create_pagination\<close> builds under \<open>"view"\<close> in
  api-spark has the same keys, a link being present or not; it is held in the same
  record.
\<close>

record HydraView =
  view_id :: string
  view_type :: string
  first_link :: "string option"
  previous_link :: "string option"
  next_link :: "string option"
  last_link :: "string option"

text \<open>\<open>schemas.PaginationMeta\<close>, and the dict of \<open>create_pagination\<close>.\<close>

record PaginationMeta =
  pg_page :: int
  pg_limit :: int
  pg_totalItems :: int
  pg_total_pages :: int
  pg_has_next :: bool
  pg_has_prev :: bool
  pg_view :: "HydraView option"

text \<open>\<open>f"{base_url}?page={page}&limit={limit}"\<close>\<close>

definition page_url :: "string \<Rightarrow> int \<Rightarrow> int \<Rightarrow> string" where
  "page_url base_url page limit =
     base_url @ ''?page='' @ str_int page @ ''&limit='' @ str_int limit"

text \<open>The two \<open>if\<close> statements that add the links, the same in \<open>create_hydra_view\<close>
  (lines 33-39) and in \<open>create_pagination\<close> (lines 100-106).\<close>

definition add_links :: "string \<Rightarrow> int \<Rightarrow> int \<Rightarrow> int \<Rightarrow> HydraView \<Rightarrow> HydraView" where
  "add_links base_url page limit total_pages view =
     (let view1 = (if page > 1
                   then view\<lparr>first_link := Some (page_url base_url 1 limit),
                             previous_link := Some (page_url base_url (page - 1) limit)\<rparr>
                   else view);
          view2 = (if page < total_pages
                   then view1\<lparr>next_link := Some (page_url base_url (page + 1) limit),
                              last_link := Some (page_url base_url total_pages limit)\<rparr>
                   else view1)
      in view2)"

text \<open>api-mysql/main.py, lines 18-41.\<close>

definition create_hydra_view :: "string \<Rightarrow> int \<Rightarrow> int \<Rightarrow> int \<Rightarrow> HydraView option" where
  "create_hydra_view base_url page limit total_pages =
     (if total_pages \<le> 0 then None
      else Some (add_links base_url page limit total_pages
                   \<lparr>view_id = page_url base_url page limit,
                    view_type = ''hydra:PartialCollectionView'',
                    first_link = None, previous_link = None,
                    next_link = None, last_link = None\<rparr>))"

text \<open>api-mysql/main.py, lines 218-231 (and 305-318): the pagination metadata of a
  list endpoint.\<close>

definition pagination_meta :: "string \<Rightarrow> int \<Rightarrow> int \<Rightarrow> int \<Rightarrow> py_error + PaginationMeta" where
  "pagination_meta base_url page limit total_count =
     (case compute_total_pages total_count limit of
        Inl e \<Rightarrow> Inl e
      | Inr total_pages \<Rightarrow>
          Inr \<lparr>pg_page = page, pg_limit = limit, pg_totalItems = total_count,
               pg_total_pages = total_pages,
               pg_has_next = (page < total_pages),
               pg_has_prev = (page > 1),
               pg_view = create_hydra_view base_url page limit total_pages\<rparr>)"

text \<open>api-spark/main.py, lines 81-108. \<open>if base_url:\<close> holds for a non-empty
  string.\<close>

definition create_pagination :: "int \<Rightarrow> int \<Rightarrow> int \<Rightarrow> string \<Rightarrow> py_error + PaginationMeta" where
  "create_pagination page limit total_count base_url =
     (case compute_total_pages total_count limit of
        Inl e \<Rightarrow> Inl e
      | Inr total_pages \<Rightarrow>
          Inr \<lparr>pg_page = page, pg_limit = limit, pg_totalItems = total_count,
               pg_total_pages = total_pages,
               pg_has_next = (page < total_pages),
               pg_has_prev = (page > 1),
               pg_view =
                 (if base_url \<noteq> ''''
                  then Some (add_links base_url page limit total_pages
                               \<lparr>view_id = page_url base_url page limit,
                                view_type = ''hydra:PartialCollectionView'',
                                first_link = None, previous_link = None,
                                next_link = None, last_link = None\<rparr>)
                  else None)\<rparr>)"

subsection \<open>The list endpoints of api-mysql\<close>

text \<open>A \<open>datetime.date\<close>, and its \<open>isoformat()\<close>, \<open>YYYY-MM-DD\<close>.\<close>

record pydate =
  year :: nat
  month :: nat
  day :: nat

definition zfill :: "nat \<Rightarrow> string \<Rightarrow> string" where
  "zfill width s = replicate (width - length s) CHR ''0'' @ s"

definition isoformat :: "pydate \<Rightarrow> string" where
  "isoformat d =
     zfill 4 (str_nat (year d)) @ ''-'' @ zfill 2 (str_nat (month d)) @ ''-''
       @ zfill 2 (str_nat (day d))"

text \<open>\<open>schemas.EntrepriseBase\<close>, as \<open>from_orm\<close> reads it from a row of the table.\<close>

record EntrepriseBase =
  siren :: string
  nom_unite_legale :: "string option"
  denomination_unite_legale :: "string option"
  activite_principale_unite_legale :: "string option"
  nomenclature_activite_principale_unite_legale :: "string option"
  tranche_effectifs_unite_legale :: "string option"
  date_creation :: "pydate option"

text \<open>\<open>schemas.EntrepriseJSONLD\<close>, without its constant \<open>@context\<close>.\<close>

record EntrepriseJSONLD =
  ld_type :: string
  ld_id :: string
  ld_identifier :: string
  ld_name :: "string option"
  ld_legalName :: "string option"
  ld_alternativeName :: "string option"
  ld_foundingDate :: "string option"
  ld_naics :: "string option"
  ld_numberOfEmployees :: "string option"
  ld_legalForm :: "string option"
  ld_additionalType :: "string option"
  ld_socialEnterprise :: bool
  ld_isEmployer :: bool

text \<open>\<open>a or b\<close> on optional strings: \<open>a\<close> when it is neither \<open>None\<close> nor empty.\<close>

definition py_or :: "string option \<Rightarrow> string option \<Rightarrow> string option" where
  "py_or a b = (if a = None \<or> a = Some '''' then b else a)"

text \<open>\<open>EntrepriseJSONLD.from_entreprise\<close>, schemas.py lines 56-76.\<close>

definition from_entreprise :: "EntrepriseBase \<Rightarrow> EntrepriseJSONLD" where
  "from_entreprise entreprise =
     \<lparr>ld_type = ''Organization'',
      ld_id = ''siren:'' @ siren entreprise,
      ld_identifier = siren entreprise,
      ld_name = py_or (nom_unite_legale entreprise) (denomination_unite_legale entreprise),
      ld_legalName = denomination_unite_legale entreprise,
      ld_alternativeName = None,
      ld_foundingDate =
        (case date_creation entreprise of None \<Rightarrow> None | Some d \<Rightarrow> Some (isoformat d)),
      ld_naics = activite_principale_unite_legale entreprise,
      ld_numberOfEmployees = tranche_effectifs_unite_legale entreprise,
      ld_legalForm = None,
      ld_additionalType = None,
      ld_socialEnterprise = False,
      ld_isEmployer = False\<rparr>"

text \<open>\<open>schemas.EntrepriseListJSONLD\<close>, without its constant \<open>@context\<close>.\<close>

record EntrepriseListJSONLD =
  list_type :: string
  numberOfItems :: int
  totalItems :: int
  itemListElement :: "EntrepriseJSONLD list"
  pagination :: PaginationMeta

text \<open>
  What the two list endpoints do once the database has answered, lines 211-240 and
  298-327: \<open>total_count\<close> is the result of the count query and \<open>entreprises\<close> the
  rows of the page, both supplied by SQLAlchemy, outside the repository.
\<close>

definition list_response ::
    "string \<Rightarrow> int \<Rightarrow> int \<Rightarrow> int \<Rightarrow> EntrepriseBase list \<Rightarrow> py_error + EntrepriseListJSONLD" where
  "list_response base_url page limit total_count entreprises =
     (let entreprises_jsonld = map from_entreprise entreprises
      in case pagination_meta base_url page limit total_count of
           Inl e \<Rightarrow> Inl e
         | Inr meta \<Rightarrow>
             Inr \<lparr>list_type = ''ItemList'',
                  numberOfItems = int (length entreprises_jsonld),
                  totalItems = total_count,
                  itemListElement = entreprises_jsonld,
                  pagination = meta\<rparr>)"

text \<open>Lines 180-240. The URL is built from the scheme and the host of the request.\<close>

definition get_entreprises_by_activite ::
    "string \<Rightarrow> string \<Rightarrow> string \<Rightarrow> int \<Rightarrow> int \<Rightarrow> int \<Rightarrow> EntrepriseBase list
     \<Rightarrow> py_error + EntrepriseListJSONLD" where
  "get_entreprises_by_activite scheme netloc code page limit total_count entreprises =
     list_response (scheme @ ''://'' @ netloc @ ''/entreprises/activite/'' @ code)
       page limit total_count entreprises"

text \<open>Lines 254-327; the view is built on \<open>f"{base_url}?nom={nom}"\<close>.\<close>

definition search_entreprises_by_name ::
    "string \<Rightarrow> string \<Rightarrow> string \<Rightarrow> int \<Rightarrow> int \<Rightarrow> int \<Rightarrow> EntrepriseBase list
     \<Rightarrow> py_error + EntrepriseListJSONLD" where
  "search_entreprises_by_name scheme netloc nom page limit total_count entreprises =
     list_response (scheme @ ''://'' @ netloc @ ''/entreprises/search'' @ ''?nom='' @ nom)
       page limit total_count entreprises"

section \<open>The Row Mapper\<close>

lemma distinct_target_columns: "distinct (map snd COLUMN_MAPPING)"
  unfolding COLUMN_MAPPING_def by simp

lemma dict_set_new_key: "k \<notin> fst ` set d \<Longrightarrow> dict_set d k v = d @ [(k, v)]"
  by (induction d) auto

lemma foldl_map_column:
  "distinct (map snd M) \<Longrightarrow> fst ` set acc \<inter> snd ` set M = {} \<Longrightarrow>
   foldl (map_column row) acc M =
     acc @ map (\<lambda>(c, d). (d, if row_get row c = Some '''' then None else row_get row c)) M"
proof (induction M arbitrary: acc)
  case Nil
  then show ?case by simp
next
  case (Cons a M)
  obtain c d where a: "a = (c, d)" by (cases a)
  have d: "d \<notin> fst ` set acc" using Cons.prems(2) a by auto
  let ?v = "if row_get row c = Some '''' then None else row_get row c"
  have step: "map_column row acc a = acc @ [(d, ?v)]"
    using d by (auto simp: map_column_def a Let_def dict_set_new_key)
  have "fst ` set (acc @ [(d, ?v)]) \<inter> snd ` set M = {}"
    using Cons.prems a by auto
  with Cons.IH[of "acc @ [(d, ?v)]"] Cons.prems(1) step a show ?case by simp
qed

lemma map_row_eq:
  "map_row row =
     map (\<lambda>(c, d). (d, if row_get row c = Some '''' then None else row_get row c)) COLUMN_MAPPING"
  unfolding map_row_def using foldl_map_column[OF distinct_target_columns, of "[]" row] by simp

lemma map_row_keys: "map fst (map_row row) = map snd COLUMN_MAPPING"
  by (simp add: map_row_eq case_prod_unfold comp_def)

lemma map_row_distinct: "distinct (map fst (map_row row))"
  by (simp add: map_row_keys distinct_target_columns)

text \<open>
  Claim C5. The Row Mapper is total and pure: for every source record the mapped record
  has exactly the target columns of \<open>COLUMN_MAPPING\<close>, each once and in the order of
  the table; a source field that is absent, \<open>None\<close> or the empty string gives
  \<open>None\<close> (never the empty string), any other value is carried over unchanged;
  and source fields outside the table have no influence on the result. The function
  has no failing branch.
\<close>

theorem map_row_total:
  "map fst (map_row row) = map snd COLUMN_MAPPING
   \<and> distinct (map fst (map_row row))
   \<and> (\<forall>(csv_col, db_col) \<in> set COLUMN_MAPPING.
         map_of (map_row row) db_col =
           Some (case row csv_col of
                   None \<Rightarrow> None
                 | Some None \<Rightarrow> None
                 | Some (Some v) \<Rightarrow> if v = '''' then None else Some v))
   \<and> Some '''' \<notin> snd ` set (map_row row)
   \<and> ((\<forall>csv_col \<in> fst ` set COLUMN_MAPPING. row csv_col = row' csv_col)
        \<longrightarrow> map_row row = map_row row')"
proof (intro conjI)
  show "map fst (map_row row) = map snd COLUMN_MAPPING" by (rule map_row_keys)
  show "distinct (map fst (map_row row))" by (rule map_row_distinct)
  show "\<forall>(csv_col, db_col) \<in> set COLUMN_MAPPING.
         map_of (map_row row) db_col =
           Some (case row csv_col of
                   None \<Rightarrow> None
                 | Some None \<Rightarrow> None
                 | Some (Some v) \<Rightarrow> if v = '''' then None else Some v)"
  proof (clarify)
    fix c d assume cd: "(c, d) \<in> set COLUMN_MAPPING"
    let ?v = "if row_get row c = Some '''' then None else row_get row c"
    have "(d, ?v) \<in> set (map_row row)"
      unfolding map_row_eq using cd by force
    then have "map_of (map_row row) d = Some ?v"
      using map_row_distinct by simp
    moreover have "?v = (case row c of None \<Rightarrow> None | Some None \<Rightarrow> None
                 | Some (Some v) \<Rightarrow> if v = '''' then None else Some v)"
      by (simp add: row_get_def split: option.splits)
    ultimately show "map_of (map_row row) d =
           Some (case row c of None \<Rightarrow> None | Some None \<Rightarrow> None
                 | Some (Some v) \<Rightarrow> if v = '''' then None else Some v)"
      by simp
  qed
  show "Some '''' \<notin> snd ` set (map_row row)"
    unfolding map_row_eq by (auto split: if_splits)
  show "(\<forall>csv_col \<in> fst ` set COLUMN_MAPPING. row csv_col = row' csv_col)
        \<longrightarrow> map_row row = map_row row'"
  proof
    assume eq: "\<forall>csv_col \<in> fst ` set COLUMN_MAPPING. row csv_col = row' csv_col"
    have "\<And>c d. (c, d) \<in> set COLUMN_MAPPING \<Longrightarrow> row_get row c = row_get row' c"
      using eq by (force simp: row_get_def)
    then show "map_row row = map_row row'"
      unfolding map_row_eq by (intro map_cong) auto
  qed
qed

theorem map_row_total_witness:
  "(''siren'', ''siren'') \<in> set COLUMN_MAPPING
   \<and> (''sigleUniteLegale'', ''sigle_unite_legale'') \<in> set COLUMN_MAPPING
   \<and> (''dateDebut'', ''date_debut'') \<in> set COLUMN_MAPPING
   \<and> map_of (map_row [''siren'' \<mapsto> Some ''552100554'', ''sigleUniteLegale'' \<mapsto> Some '''',
                        ''colonneInconnue'' \<mapsto> Some '' x ''])
        ''siren'' = Some (Some ''552100554'')
   \<and> map_of (map_row [''siren'' \<mapsto> Some ''552100554'', ''sigleUniteLegale'' \<mapsto> Some '''',
                        ''colonneInconnue'' \<mapsto> Some '' x ''])
        ''sigle_unite_legale'' = Some None
   \<and> map_of (map_row [''siren'' \<mapsto> Some ''552100554'', ''sigleUniteLegale'' \<mapsto> Some '''',
                        ''colonneInconnue'' \<mapsto> Some '' x ''])
        ''date_debut'' = Some None
   \<and> map_row [''siren'' \<mapsto> Some ''552100554'', ''sigleUniteLegale'' \<mapsto> Some '''',
               ''colonneInconnue'' \<mapsto> Some '' x '']
     = map_row [''siren'' \<mapsto> Some ''552100554'', ''sigleUniteLegale'' \<mapsto> Some '''']"
proof -
  let ?row = "[''siren'' \<mapsto> Some ''552100554'', ''sigleUniteLegale'' \<mapsto> Some '''',
               ''colonneInconnue'' \<mapsto> Some '' x ''] :: source_record"
  let ?row' = "[''siren'' \<mapsto> Some ''552100554'', ''sigleUniteLegale'' \<mapsto> Some ''''] :: source_record"
  note t = map_row_total [of ?row ?row']
  have m1: "(''siren'', ''siren'') \<in> set COLUMN_MAPPING"
    and m2: "(''sigleUniteLegale'', ''sigle_unite_legale'') \<in> set COLUMN_MAPPING"
    and m3: "(''dateDebut'', ''date_debut'') \<in> set COLUMN_MAPPING"
    by (simp_all add: COLUMN_MAPPING_def)
  from t have all: "\<forall>(csv_col, db_col) \<in> set COLUMN_MAPPING.
         map_of (map_row ?row) db_col =
           Some (case ?row csv_col of None \<Rightarrow> None | Some None \<Rightarrow> None
                 | Some (Some v) \<Rightarrow> if v = '''' then None else Some v)"
    by blast
  have v1: "map_of (map_row ?row) ''siren'' = Some (Some ''552100554'')"
    using all m1 by fastforce
  have v2: "map_of (map_row ?row) ''sigle_unite_legale'' = Some None"
    using all m2 by fastforce
  have v3: "map_of (map_row ?row) ''date_debut'' = Some None"
    using all m3 by fastforce
  have same: "\<forall>csv_col \<in> fst ` set COLUMN_MAPPING. ?row csv_col = ?row' csv_col"
    by (simp add: COLUMN_MAPPING_def)
  from t same have v4: "map_row ?row = map_row ?row'" by blast
  show ?thesis using m1 m2 m3 v1 v2 v3 v4 by blast
qed

section \<open>The loop of import\_csv\<close>

lemma insert_batch_nonneg: "0 \<le> fst (insert_batch db conn rows)"
  by (auto simp: insert_batch_def Let_def split: list.splits sum.splits prod.splits)

lemma import_rows_append:
  "import_rows db bs (pre @ post) s =
     (case import_rows db bs pre s of Inl x \<Rightarrow> Inl x | Inr s1 \<Rightarrow> import_rows db bs post s1)"
proof (induction pre arbitrary: s)
  case Nil
  then show ?case by simp
next
  case (Cons a pre)
  then show ?case by (cases a) (simp_all add: Let_def)
qed

lemma load_batch_counters:
  "inserted_rows (load_batch db s) + skipped_rows (load_batch db s)
     = inserted_rows s + skipped_rows s + int (length (batch s))"
  "total_rows (load_batch db s) = total_rows s"
  "batch (load_batch db s) = batch s"
  "inserted_rows s \<le> inserted_rows (load_batch db s)"
  using insert_batch_nonneg[of db "connection s" "batch s"]
  by (auto simp: load_batch_def split: prod.splits)

lemma load_batch_skipped_mono:
  "fst (insert_batch db (connection s) (batch s)) \<le> int (length (batch s))
   \<Longrightarrow> skipped_rows s \<le> skipped_rows (load_batch db s)"
  by (auto simp: load_batch_def split: prod.splits)

lemma import_rows_invariant:
  "import_rows db bs reader s = Inr s' \<Longrightarrow>
   inserted_rows s' + skipped_rows s' + int (length (batch s'))
     = inserted_rows s + skipped_rows s + int (length (batch s)) + int (length reader)
   \<and> total_rows s' = total_rows s + int (length reader)
   \<and> inserted_rows s \<le> inserted_rows s'"
proof (induction reader arbitrary: s)
  case Nil
  then show ?case by simp
next
  case (Cons a reader)
  show ?case
  proof (cases a)
    case (Inl e)
    with Cons.prems show ?thesis by simp
  next
    case (Inr row)
    let ?s2 = "s\<lparr>total_rows := total_rows s + 1, batch := batch s @ [map_row row]\<rparr>"
    show ?thesis
    proof (cases "int (length (batch ?s2)) \<ge> bs")
      case True
      with Cons.prems Inr have "import_rows db bs reader ((load_batch db ?s2)\<lparr>batch := []\<rparr>) = Inr s'"
        by (simp add: Let_def)
      from Cons.IH[OF this] load_batch_counters[where db=db and s="?s2"] show ?thesis by simp
    next
      case False
      with Cons.prems Inr have "import_rows db bs reader ?s2 = Inr s'"
        by (simp add: Let_def)
      from Cons.IH[OF this] show ?thesis by simp
    qed
  qed
qed

lemma import_rows_skipped_mono:
  assumes "\<forall>conn rows. fst (insert_batch db conn rows) \<le> int (length rows)"
  shows "import_rows db bs reader s = Inr s' \<Longrightarrow> skipped_rows s \<le> skipped_rows s'"
proof (induction reader arbitrary: s)
  case Nil
  then show ?case by simp
next
  case (Cons a reader)
  show ?case
  proof (cases a)
    case (Inl e)
    with Cons.prems show ?thesis by simp
  next
    case (Inr row)
    let ?s2 = "s\<lparr>total_rows := total_rows s + 1, batch := batch s @ [map_row row]\<rparr>"
    show ?thesis
    proof (cases "int (length (batch ?s2)) \<ge> bs")
      case True
      with Cons.prems Inr have "import_rows db bs reader ((load_batch db ?s2)\<lparr>batch := []\<rparr>) = Inr s'"
        by (simp add: Let_def)
      moreover have "fst (insert_batch db (connection ?s2) (batch ?s2)) \<le> int (length (batch ?s2))"
        using assms by blast
      ultimately show ?thesis
        using Cons.IH[of "(load_batch db ?s2)\<lparr>batch := []\<rparr>"] load_batch_skipped_mono[where db=db and s="?s2"]
        by simp
    next
      case False
      with Cons.prems Inr have "import_rows db bs reader ?s2 = Inr s'"
        by (simp add: Let_def)
      from Cons.IH[OF this] show ?thesis by simp
    qed
  qed
qed

section \<open>insert\_batch\<close>

lemma row_values_subset:
  "distinct (map fst row) \<Longrightarrow> set ps \<subseteq> set row \<Longrightarrow> row_values (map fst ps) row = Inr (map snd ps)"
proof (induction ps)
  case Nil
  then show ?case by simp
next
  case (Cons p ps)
  obtain k v where p: "p = (k, v)" by (cases p)
  have k: "map_of row k = Some v" using Cons.prems p by simp
  have "row_values (map fst ps) row = Inr (map snd ps)" using Cons by simp
  then show ?case unfolding p by (simp add: k del: map_of_eq_Some_iff)
qed

lemma row_values_own_keys:
  "distinct (map fst row) \<Longrightarrow> row_values (map fst row) row = Inr (map snd row)"
  by (rule row_values_subset) simp_all

lemma batch_values_uniform:
  "\<forall>row \<in> set rows. map fst row = columns \<Longrightarrow> distinct columns \<Longrightarrow>
   batch_values columns rows = Inr (map (map snd) rows)"
proof (induction rows)
  case Nil
  then show ?case by simp
next
  case (Cons row rows)
  have "row_values columns row = Inr (map snd row)"
    using Cons.prems row_values_own_keys[of row] by auto
  with Cons show ?case by simp
qed

lemma insert_batch_uniform:
  assumes "\<forall>row \<in> set rows. map fst row = columns" "distinct columns" "rows \<noteq> []"
  shows "insert_batch db conn rows =
     (case executemany db conn
             (InsertIgnore ''unite_legale'' columns (replicate (length columns) ''%s''))
             (map (map snd) rows) of
        Inl (e, conn') \<Rightarrow> (0, conn')
      | Inr (rowcount, conn') \<Rightarrow> (if rowcount > 0 then rowcount else 0, conn'))"
proof -
  obtain first rest where rows: "rows = first # rest" using assms(3) by (cases rows) auto
  have c: "map fst first = columns" using assms(1) rows by simp
  show ?thesis
    using batch_values_uniform[OF assms(1,2)] c
    by (simp add: insert_batch_def rows Let_def)
qed

lemma foldl_insert_ignore_bounds:
  "foldl insert_ignore_row (n, st) rs = (n', st') \<Longrightarrow> n \<le> n' \<and> n' \<le> n + int (length rs)"
proof (induction rs arbitrary: n st)
  case Nil
  then show ?case by simp
next
  case (Cons r rs)
  obtain n1 st1 where step: "insert_ignore_row (n, st) r = (n1, st1)" by (cases "insert_ignore_row (n, st) r")
  then have "n \<le> n1 \<and> n1 \<le> n + 1" by (auto simp: insert_ignore_row_def split: if_splits)
  moreover have "n1 \<le> n' \<and> n' \<le> n1 + int (length rs)"
    using Cons.IH[of n1 st1] Cons.prems step by simp
  ultimately show ?case by simp
qed

lemma batch_values_length:
  "batch_values columns rows = Inr vals \<Longrightarrow> length vals = length rows"
  by (induction rows arbitrary: vals) (auto split: sum.splits)

lemma mysql_insert_batch_bounds:
  "0 \<le> fst (insert_batch (mysql_driver rejects) conn rows)
   \<and> fst (insert_batch (mysql_driver rejects) conn rows) \<le> int (length rows)"
proof (cases rows)
  case Nil
  then show ?thesis by (simp add: insert_batch_def)
next
  case (Cons first rest)
  show ?thesis
  proof (cases "batch_values (map fst first) rows")
    case (Inl e)
    then show ?thesis by (simp add: insert_batch_def Cons Let_def)
  next
    case (Inr vals)
    then have len: "length vals = length rows" by (rule batch_values_length)
    let ?q = "InsertIgnore ''unite_legale'' (map fst first) (replicate (length first) ''%s'')"
    show ?thesis
    proof (cases "rejects conn ?q vals")
      case True
      with Inr show ?thesis
        by (simp add: insert_batch_def Cons Let_def mysql_driver_def mysql_executemany_def)
    next
      case False
      obtain n' st' where f: "foldl insert_ignore_row (0, conn) (map (zip (map fst first)) vals) = (n', st')"
        by (cases "foldl insert_ignore_row (0, conn) (map (zip (map fst first)) vals)")
      from foldl_insert_ignore_bounds[OF f] len have "0 \<le> n' \<and> n' \<le> int (length rows)" by simp
      with Inr False f show ?thesis
        by (simp add: insert_batch_def Cons Let_def mysql_driver_def mysql_executemany_def)
    qed
  qed
qed

section \<open>The store under insert-or-ignore\<close>

lemma zip_keys_values: "map fst row = columns \<Longrightarrow> zip columns (map snd row) = row"
  by (auto simp: zip_map_fst_snd)

lemma map_zip_uniform:
  "\<forall>row \<in> set rows. map fst row = columns \<Longrightarrow> map (zip columns) (map (map snd) rows) = rows"
  by (induction rows) (auto simp: zip_map_fst_snd)

lemma foldl_insert_ignore_nonneg:
  "0 \<le> fst (foldl insert_ignore_row (0, st) rs)"
  using foldl_insert_ignore_bounds[of 0 st rs] by (cases "foldl insert_ignore_row (0, st) rs") auto

lemma mysql_insert_batch_uniform:
  assumes "\<forall>row \<in> set rows. map fst row = columns" "distinct columns" "rows \<noteq> []"
  shows "insert_batch (mysql_driver rejects) st rows =
     (if rejects st (InsertIgnore ''unite_legale'' columns (replicate (length columns) ''%s''))
                 (map (map snd) rows)
      then (0, st) else foldl insert_ignore_row (0, st) rows)"
proof -
  obtain n' st' where f: "foldl insert_ignore_row (0, st) rows = (n', st')"
    by (cases "foldl insert_ignore_row (0, st) rows")
  have "0 \<le> n'" using foldl_insert_ignore_nonneg[of st rows] f by simp
  then show ?thesis
    using f map_zip_uniform[OF assms(1)]
    by (simp add: insert_batch_uniform[OF assms] mysql_driver_def mysql_executemany_def)
qed

lemma insert_ignore_known_keys:
  "set (map unique_key rs) \<subseteq> set (map unique_key (visible_rows st))
   \<Longrightarrow> foldl insert_ignore_row (n, st) rs = (n, st)"
  by (induction rs) (auto simp: insert_ignore_row_def)

lemma insert_ignore_row_keys:
  "insert_ignore_row (n, st) r = (n', st') \<Longrightarrow>
   set (map unique_key (visible_rows st')) = insert (unique_key r) (set (map unique_key (visible_rows st)))"
  by (auto simp: insert_ignore_row_def visible_rows_def split: if_splits)

lemma foldl_insert_ignore_keys:
  "foldl insert_ignore_row (n, st) rs = (n', st') \<Longrightarrow>
   set (map unique_key (visible_rows st'))
     = set (map unique_key (visible_rows st)) \<union> set (map unique_key rs)"
proof (induction rs arbitrary: n st)
  case Nil
  then show ?case by simp
next
  case (Cons r rs)
  obtain n1 st1 where step: "insert_ignore_row (n, st) r = (n1, st1)"
    by (cases "insert_ignore_row (n, st) r")
  from Cons.prems step have "foldl insert_ignore_row (n1, st1) rs = (n', st')" by simp
  from Cons.IH[OF this] insert_ignore_row_keys[OF step] show ?case by auto
qed

lemma unique_key_map_row:
  "unique_key (map_row r) =
     Some (if row_get r ''siren'' = Some '''' then None else row_get r ''siren'')"
  by (simp add: unique_key_def map_row_eq COLUMN_MAPPING_def)

lemma mysql_insert_batch_known_keys:
  assumes "\<forall>row \<in> set rows. map fst row = columns" "distinct columns"
    and "set (map unique_key rows) \<subseteq> set (map unique_key (visible_rows st))"
  shows "insert_batch (mysql_driver rejects) st rows = (0, st)"
proof (cases "rows = []")
  case True
  then show ?thesis by (simp add: insert_batch_def)
next
  case False
  show ?thesis
    by (simp add: mysql_insert_batch_uniform[OF assms(1,2) False] insert_ignore_known_keys[OF assms(3)])
qed

lemma mysql_insert_batch_retains:
  assumes "\<forall>row \<in> set rows. map fst row = columns" "distinct columns"
    and "\<not> rejects st (InsertIgnore ''unite_legale'' columns (replicate (length columns) ''%s''))
                 (map (map snd) rows)"
    and "insert_batch (mysql_driver rejects) st rows = (n1, st1)"
  shows "set (map unique_key rows) \<subseteq> set (map unique_key (visible_rows st1))"
proof (cases "rows = []")
  case True
  then show ?thesis by simp
next
  case False
  have "foldl insert_ignore_row (0, st) rows = (n1, st1)"
    using assms(3,4) by (simp add: mysql_insert_batch_uniform[OF assms(1,2) False])
  from foldl_insert_ignore_keys[OF this] show ?thesis by blast
qed

text \<open>
  Claim C7. Row-level idempotency of the insert-or-ignore load: when a batch (records
  with one and the same column list) has been loaded and the store accepted it, loading
  it a second time persists 0 rows, the skipped counter grows by exactly the size of the
  batch, and the store is left as it was after the first load.
\<close>

theorem load_batch_twice:
  assumes "\<forall>row \<in> set (batch s). map fst row = columns" and "distinct columns"
    and "\<not> rejects (connection s)
             (InsertIgnore ''unite_legale'' columns (replicate (length columns) ''%s''))
             (map (map snd) (batch s))"
  shows "fst (insert_batch (mysql_driver rejects)
                 (connection (load_batch (mysql_driver rejects) s)) (batch s)) = 0
       \<and> inserted_rows (load_batch (mysql_driver rejects) (load_batch (mysql_driver rejects) s))
           = inserted_rows (load_batch (mysql_driver rejects) s)
       \<and> skipped_rows (load_batch (mysql_driver rejects) (load_batch (mysql_driver rejects) s))
           = skipped_rows (load_batch (mysql_driver rejects) s) + int (length (batch s))
       \<and> connection (load_batch (mysql_driver rejects) (load_batch (mysql_driver rejects) s))
           = connection (load_batch (mysql_driver rejects) s)"
proof -
  let ?db = "mysql_driver rejects"
  obtain n1 st1 where first: "insert_batch ?db (connection s) (batch s) = (n1, st1)"
    by (cases "insert_batch ?db (connection s) (batch s)")
  have s1: "connection (load_batch ?db s) = st1" "batch (load_batch ?db s) = batch s"
    using first by (simp_all add: load_batch_def)
  have "set (map unique_key (batch s)) \<subseteq> set (map unique_key (visible_rows st1))"
    using mysql_insert_batch_retains[OF assms first] .
  then have second: "insert_batch ?db st1 (batch s) = (0, st1)"
    using mysql_insert_batch_known_keys[OF assms(1,2)] by blast
  show ?thesis
    using second s1 by (simp add: load_batch_def[of ?db "load_batch ?db s"])
qed

theorem load_batch_twice_witness:
  "distinct (map snd COLUMN_MAPPING)
   \<and> inserted_rows (load_batch (mysql_driver (\<lambda>st query vals. False))
        \<lparr>batch = [map_row [''siren'' \<mapsto> Some ''552100554''], map_row [''siren'' \<mapsto> Some ''542065479'']],
         total_rows = 2, inserted_rows = 0, skipped_rows = 0,
         connection = \<lparr>rows_committed = [], rows_pending = []\<rparr>\<rparr>) = 2
   \<and> inserted_rows (load_batch (mysql_driver (\<lambda>st query vals. False))
        (load_batch (mysql_driver (\<lambda>st query vals. False))
        \<lparr>batch = [map_row [''siren'' \<mapsto> Some ''552100554''], map_row [''siren'' \<mapsto> Some ''542065479'']],
         total_rows = 2, inserted_rows = 0, skipped_rows = 0,
         connection = \<lparr>rows_committed = [], rows_pending = []\<rparr>\<rparr>)) = 2
   \<and> skipped_rows (load_batch (mysql_driver (\<lambda>st query vals. False))
        (load_batch (mysql_driver (\<lambda>st query vals. False))
        \<lparr>batch = [map_row [''siren'' \<mapsto> Some ''552100554''], map_row [''siren'' \<mapsto> Some ''542065479'']],
         total_rows = 2, inserted_rows = 0, skipped_rows = 0,
         connection = \<lparr>rows_committed = [], rows_pending = []\<rparr>\<rparr>)) = 2"
proof -
  let ?rej = "(\<lambda>st query vals. False) :: mysql \<Rightarrow> statement \<Rightarrow> py_value list list \<Rightarrow> bool"
  let ?b = "[map_row [''siren'' \<mapsto> Some ''552100554''], map_row [''siren'' \<mapsto> Some ''542065479'']]"
  let ?s = "\<lparr>batch = ?b, total_rows = 2, inserted_rows = 0, skipped_rows = 0,
         connection = \<lparr>rows_committed = [], rows_pending = []\<rparr>\<rparr>"
  have u: "\<forall>row \<in> set (batch ?s). map fst row = map snd COLUMN_MAPPING"
    by (simp add: map_row_keys)
  have u': "\<forall>row \<in> set ?b. map fst row = map snd COLUMN_MAPPING"
    by (simp add: map_row_keys)
  have first: "insert_batch (mysql_driver ?rej) \<lparr>rows_committed = [], rows_pending = []\<rparr> ?b
      = (2, \<lparr>rows_committed = [], rows_pending = ?b\<rparr>)"
    by (simp add: mysql_insert_batch_uniform[OF u' distinct_target_columns]
        insert_ignore_row_def visible_rows_def unique_key_map_row row_get_def)
  have i1: "inserted_rows (load_batch (mysql_driver ?rej) ?s) = 2"
    and k1: "skipped_rows (load_batch (mysql_driver ?rej) ?s) = 0"
    using first by (simp_all add: load_batch_def)
  from load_batch_twice[of ?s "map snd COLUMN_MAPPING" ?rej, OF u distinct_target_columns]
  show ?thesis using i1 k1 distinct_target_columns by simp
qed

section \<open>Counters of a run\<close>

lemma import_rows_initial_nonneg:
  assumes "\<forall>conn rows. fst (insert_batch db conn rows) \<le> int (length rows)"
    and "import_rows db bs reader (initial_state conn) = Inr s"
  shows "0 \<le> inserted_rows s \<and> 0 \<le> skipped_rows s"
  using import_rows_invariant[OF assms(2)] import_rows_skipped_mono[OF assms]
  by (simp add: initial_state_def)

text \<open>
  Claim C10. Counter conservation in \<open>import_csv\<close>, assuming that every call of
  \<open>insert_batch\<close> returns a value between 0 and the length of its batch. At every
  point of the loop (after any prefix \<open>pre\<close> of the rows that the reader yields),
  \<open>inserted_rows + skipped_rows\<close> is the number of records handed to the Loader so
  far, that is the records read less those still in the buffer; the three counters
  never decrease from that point to any later point of the loop nor to the figures of
  the final summary; and at the end of a run \<open>total_rows = inserted_rows +
  skipped_rows\<close>.
\<close>

theorem counter_conservation:
  assumes "\<forall>conn rows. 0 \<le> fst (insert_batch db conn rows)
              \<and> fst (insert_batch db conn rows) \<le> int (length rows)"
  shows "(\<forall>pre post s1.
            reader = pre @ post \<and> import_rows db batch_size pre (initial_state conn) = Inr s1
            \<longrightarrow> inserted_rows s1 + skipped_rows s1 = total_rows s1 - int (length (batch s1))
              \<and> total_rows s1 = int (length pre)
              \<and> 0 \<le> inserted_rows s1 \<and> 0 \<le> skipped_rows s1
              \<and> (\<forall>s2. import_rows db batch_size reader (initial_state conn) = Inr s2
                    \<longrightarrow> total_rows s1 \<le> total_rows s2
                      \<and> inserted_rows s1 \<le> inserted_rows s2
                      \<and> skipped_rows s1 \<le> skipped_rows s2)
              \<and> (\<forall>n_read n_inserted n_skipped conn'.
                    import_csv db reader batch_size conn
                      = Imported n_read n_inserted n_skipped conn'
                    \<longrightarrow> total_rows s1 \<le> n_read
                      \<and> inserted_rows s1 \<le> n_inserted
                      \<and> skipped_rows s1 \<le> n_skipped))
       \<and> (\<forall>n_read n_inserted n_skipped conn'.
            import_csv db reader batch_size conn = Imported n_read n_inserted n_skipped conn'
            \<longrightarrow> n_read = n_inserted + n_skipped \<and> n_read = int (length reader))"
proof -
  have le: "\<forall>conn rows. fst (insert_batch db conn rows) \<le> int (length rows)"
    using assms by blast
  have final: "n_read = n_inserted + n_skipped \<and> n_read = int (length reader)
      \<and> total_rows s2 \<le> n_read \<and> inserted_rows s2 \<le> n_inserted \<and> skipped_rows s2 \<le> n_skipped"
    if run: "import_csv db reader batch_size conn = Imported n_read n_inserted n_skipped conn'"
      and s2: "import_rows db batch_size reader (initial_state conn) = Inr s2"
    for n_read n_inserted n_skipped conn' s2
  proof -
    note inv = import_rows_invariant[OF s2]
    let ?s' = "if batch s2 \<noteq> [] then load_batch db s2 else s2"
    have out: "n_read = total_rows ?s' \<and> n_inserted = inserted_rows ?s' \<and> n_skipped = skipped_rows ?s'"
      using run s2 by (auto simp: import_csv_def Let_def split: sum.splits prod.splits)
    have b: "fst (insert_batch db (connection s2) (batch s2)) \<le> int (length (batch s2))"
      using le by blast
    show ?thesis
    proof (cases "batch s2 = []")
      case True
      with out inv show ?thesis by (simp add: initial_state_def)
    next
      case False
      with out inv load_batch_counters[where db=db and s=s2] load_batch_skipped_mono[OF b]
      show ?thesis by (simp add: initial_state_def)
    qed
  qed
  have run_ok: "\<exists>s2. import_rows db batch_size reader (initial_state conn) = Inr s2"
    if "import_csv db reader batch_size conn = Imported n_read n_inserted n_skipped conn'"
    for n_read n_inserted n_skipped conn'
    using that by (cases "import_rows db batch_size reader (initial_state conn)")
      (auto simp: import_csv_def split: prod.splits)
  have mono: "total_rows s1 \<le> total_rows s2 \<and> inserted_rows s1 \<le> inserted_rows s2
      \<and> skipped_rows s1 \<le> skipped_rows s2"
    if "reader = pre @ post" "import_rows db batch_size pre (initial_state conn) = Inr s1"
       "import_rows db batch_size reader (initial_state conn) = Inr s2" for pre post s1 s2
  proof -
    have rest: "import_rows db batch_size post s1 = Inr s2"
      using that by (simp add: import_rows_append)
    from import_rows_invariant[OF rest] import_rows_skipped_mono[OF le rest]
    show ?thesis by simp
  qed
  show ?thesis
  proof (intro conjI allI impI)
    fix pre post s1
    assume a: "reader = pre @ post \<and> import_rows db batch_size pre (initial_state conn) = Inr s1"
    then have s1: "import_rows db batch_size pre (initial_state conn) = Inr s1" by blast
    note inv = import_rows_invariant[OF s1]
    show "inserted_rows s1 + skipped_rows s1 = total_rows s1 - int (length (batch s1))"
      using inv by (simp add: initial_state_def)
    show "total_rows s1 = int (length pre)"
      using inv by (simp add: initial_state_def)
    show "0 \<le> inserted_rows s1" "0 \<le> skipped_rows s1"
      using import_rows_initial_nonneg[OF le s1] by simp_all
    {
      fix s2 assume "import_rows db batch_size reader (initial_state conn) = Inr s2"
      with mono a show "total_rows s1 \<le> total_rows s2" "inserted_rows s1 \<le> inserted_rows s2"
        "skipped_rows s1 \<le> skipped_rows s2" by blast+
    }
    {
      fix n_read n_inserted n_skipped conn'
      assume run: "import_csv db reader batch_size conn = Imported n_read n_inserted n_skipped conn'"
      then obtain s2 where s2: "import_rows db batch_size reader (initial_state conn) = Inr s2"
        using run_ok by blast
      from final[OF run s2] mono[OF _ s1 s2] a
      show "total_rows s1 \<le> n_read" "inserted_rows s1 \<le> n_inserted" "skipped_rows s1 \<le> n_skipped"
        by auto
    }
  next
    fix n_read n_inserted n_skipped conn'
    assume run: "import_csv db reader batch_size conn = Imported n_read n_inserted n_skipped conn'"
    then obtain s2 where s2: "import_rows db batch_size reader (initial_state conn) = Inr s2"
      using run_ok by blast
    from final[OF run s2] show "n_read = n_inserted + n_skipped" "n_read = int (length reader)"
      by simp_all
  qed
qed

lemma mysql_driver_simps:
  "commit (mysql_driver rejects) = mysql_commit"
  "rollback (mysql_driver rejects) = mysql_rollback"
  "executemany (mysql_driver rejects) = mysql_executemany rejects"
  by (simp_all add: mysql_driver_def)

lemma mysql_insert_batch_mapped:
  "rows \<noteq> [] \<Longrightarrow> \<forall>row \<in> set rows. map fst row = map snd COLUMN_MAPPING \<Longrightarrow>
   insert_batch (mysql_driver rejects) st rows =
     (if rejects st (InsertIgnore ''unite_legale'' (map snd COLUMN_MAPPING)
                       (replicate (length COLUMN_MAPPING) ''%s''))
                 (map (map snd) rows)
      then (0, st) else foldl insert_ignore_row (0, st) rows)"
  using mysql_insert_batch_uniform[of rows "map snd COLUMN_MAPPING" rejects st]
    distinct_target_columns by simp

lemmas run_simps = import_csv_def initial_state_def Let_def load_batch_def
  mysql_insert_batch_mapped map_row_keys insert_ignore_row_def visible_rows_def
  unique_key_map_row row_get_def mysql_driver_simps mysql_commit_def mysql_rollback_def

theorem counter_conservation_witness:
  "import_rows (mysql_driver (\<lambda>st query vals. False)) 2
       [Inr [''siren'' \<mapsto> Some ''552100554''], Inr [''siren'' \<mapsto> Some ''542065479'']]
       (initial_state \<lparr>rows_committed = [], rows_pending = []\<rparr>)
     = Inr \<lparr>batch = [], total_rows = 2, inserted_rows = 2, skipped_rows = 0,
            connection = \<lparr>rows_committed = [],
              rows_pending = [map_row [''siren'' \<mapsto> Some ''552100554''],
                              map_row [''siren'' \<mapsto> Some ''542065479'']]\<rparr>\<rparr>
   \<and> import_csv (mysql_driver (\<lambda>st query vals. False))
       [Inr [''siren'' \<mapsto> Some ''552100554''], Inr [''siren'' \<mapsto> Some ''542065479''],
        Inr [''siren'' \<mapsto> Some ''552100554'']] 2
       \<lparr>rows_committed = [], rows_pending = []\<rparr>
     = Imported 3 2 1
         \<lparr>rows_committed = [map_row [''siren'' \<mapsto> Some ''552100554''],
                             map_row [''siren'' \<mapsto> Some ''542065479'']],
          rows_pending = []\<rparr>
   \<and> (3::int) = 2 + 1 \<and> (2::int) \<le> 3 \<and> (0::int) \<le> 1"
proof -
  let ?db = "mysql_driver (\<lambda>st query vals. False)"
  let ?r1 = "[''siren'' \<mapsto> Some ''552100554''] :: source_record"
  let ?r2 = "[''siren'' \<mapsto> Some ''542065479''] :: source_record"
  let ?st0 = "\<lparr>rows_committed = [], rows_pending = []\<rparr>"
  let ?s1 = "\<lparr>batch = [], total_rows = 2, inserted_rows = 2, skipped_rows = 0,
            connection = \<lparr>rows_committed = [], rows_pending = [map_row ?r1, map_row ?r2]\<rparr>\<rparr>"
  have bound: "\<forall>conn rows. 0 \<le> fst (insert_batch ?db conn rows)
              \<and> fst (insert_batch ?db conn rows) \<le> int (length rows)"
    using mysql_insert_batch_bounds by blast
  have pre: "import_rows ?db 2 [Inr ?r1, Inr ?r2] (initial_state ?st0) = Inr ?s1"
    by (simp add: run_simps)
  have run: "import_csv ?db [Inr ?r1, Inr ?r2, Inr ?r1] 2 ?st0
      = Imported 3 2 1 \<lparr>rows_committed = [map_row ?r1, map_row ?r2], rows_pending = []\<rparr>"
    by (simp add: run_simps)
  note t = counter_conservation[OF bound, of "[Inr ?r1, Inr ?r2, Inr ?r1]" 2 ?st0]
  have split: "[Inr ?r1, Inr ?r2, Inr ?r1] = [Inr ?r1, Inr ?r2] @ [Inr ?r1]" by simp
  note at_end = t[THEN conjunct2, rule_format, OF run]
  note at_pre = t[THEN conjunct1, rule_format, OF conjI, OF split pre]
  have "(3::int) = 2 + 1" using at_end by simp
  moreover have "(2::int) \<le> 3 \<and> (0::int) \<le> 1"
    using at_pre[THEN conjunct2, THEN conjunct2, THEN conjunct2, THEN conjunct2, THEN conjunct2,
        rule_format, OF run] by simp
  ultimately show ?thesis using pre run by simp
qed

section \<open>A batch that the store rejects\<close>

lemma import_rows_no_read_error:
  "\<forall>x \<in> set reader. \<not> isl x \<Longrightarrow> \<exists>s'. import_rows db bs reader s = Inr s'"
proof (induction reader arbitrary: s)
  case Nil
  then show ?case by simp
next
  case (Cons a reader)
  then obtain row where a: "a = Inr row" by (cases a) auto
  from Cons have "\<And>s. \<exists>s'. import_rows db bs reader s = Inr s'" by simp
  then show ?case by (simp add: a Let_def)
qed







section \<open>What a run leaves in the store\<close>











section \<open>The statements that a run sends\<close>

lemma logged_insert_batch_uniform:
  assumes "\<forall>row \<in> set rows. map fst row = columns" "distinct columns" "rows \<noteq> []"
  shows "snd (snd (insert_batch (logged db) cl rows))
     = snd cl @ [(InsertIgnore ''unite_legale'' columns (replicate (length columns) ''%s''),
                  map (map snd) rows)]"
  by (simp add: insert_batch_uniform[OF assms] logged_def split: sum.splits prod.splits)

lemma logged_load_batch_mapped:
  assumes "\<forall>row \<in> set (batch s). map fst row = map snd COLUMN_MAPPING" "batch s \<noteq> []"
  shows "snd (connection (load_batch (logged db) s))
     = snd (connection s) @ [(InsertIgnore ''unite_legale'' (map snd COLUMN_MAPPING)
                                (replicate (length COLUMN_MAPPING) ''%s''),
                              map (map snd) (batch s))]"
proof -
  obtain n c l where ib: "insert_batch (logged db) (connection s) (batch s) = (n, c, l)"
    by (cases "insert_batch (logged db) (connection s) (batch s)") auto
  have "snd (connection (load_batch (logged db) s)) = l"
    using ib by (simp add: load_batch_def)
  moreover have "l = snd (snd (insert_batch (logged db) (connection s) (batch s)))"
    using ib by simp
  ultimately show ?thesis
    using logged_insert_batch_uniform[OF assms(1) distinct_target_columns assms(2), of db "connection s"]
    by simp
qed

lemma load_batch_batch: "batch (load_batch db s) = batch s"
  by (simp add: load_batch_def split: prod.splits)

lemma import_rows_logged_full:
  assumes "1 \<le> bs"
  shows "import_rows (logged db) bs (map Inr rows) s = Inr s' \<Longrightarrow>
     int (length (batch s)) < bs \<Longrightarrow>
     \<forall>row \<in> set (batch s). map fst row = map snd COLUMN_MAPPING \<Longrightarrow>
     \<forall>c \<in> set (snd (connection s)). length (snd c) = nat bs \<Longrightarrow>
     int (length (batch s')) < bs
     \<and> (\<forall>row \<in> set (batch s'). map fst row = map snd COLUMN_MAPPING)
     \<and> (\<forall>c \<in> set (snd (connection s')). length (snd c) = nat bs)
     \<and> concat (map snd (snd (connection s'))) @ map (map snd) (batch s')
         = concat (map snd (snd (connection s))) @ map (map snd) (batch s)
             @ map (\<lambda>row. map snd (map_row row)) rows"
proof (induction rows arbitrary: s)
  case Nil
  then show ?case by simp
next
  case (Cons row rows)
  let ?s2 = "s\<lparr>total_rows := total_rows s + 1, batch := batch s @ [map_row row]\<rparr>"
  have u2: "\<forall>r \<in> set (batch ?s2). map fst r = map snd COLUMN_MAPPING"
    using Cons.prems(3) by (simp add: map_row_keys)
  have ne: "batch ?s2 \<noteq> []" by simp
  show ?case
  proof (cases "int (length (batch ?s2)) \<ge> bs")
    case True
    let ?s3 = "(load_batch (logged db) ?s2)\<lparr>batch := []\<rparr>"
    have run: "import_rows (logged db) bs (map Inr rows) ?s3 = Inr s'"
      using Cons.prems(1) True by (simp add: Let_def)
    have len: "length (batch ?s2) = nat bs" using True Cons.prems(2) by simp
    have log: "snd (connection ?s3) = snd (connection s)
        @ [(InsertIgnore ''unite_legale'' (map snd COLUMN_MAPPING)
              (replicate (length COLUMN_MAPPING) ''%s''), map (map snd) (batch ?s2))]"
      using logged_load_batch_mapped[OF u2 ne, of db] by simp
    have a: "int (length (batch ?s3)) < bs" using assms by simp
    have b: "\<forall>r \<in> set (batch ?s3). map fst r = map snd COLUMN_MAPPING" by simp
    have c: "\<forall>c \<in> set (snd (connection ?s3)). length (snd c) = nat bs"
      using Cons.prems(4) len unfolding log by auto
    from Cons.IH[OF run a b c] show ?thesis unfolding log by simp
  next
    case False
    have run: "import_rows (logged db) bs (map Inr rows) ?s2 = Inr s'"
      using Cons.prems(1) False by (simp add: Let_def)
    have a: "int (length (batch ?s2)) < bs" using False by simp
    have c: "\<forall>c \<in> set (snd (connection ?s2)). length (snd c) = nat bs"
      using Cons.prems(4) by simp
    from Cons.IH[OF run a u2 c] show ?thesis by simp
  qed
qed

lemma logged_final_log:
  "snd (final_connection (import_csv (logged db) reader bs cl))
    = (case import_rows (logged db) bs reader (initial_state cl) of
         Inl (e, s) \<Rightarrow> snd (connection s)
       | Inr s \<Rightarrow> snd (connection (if batch s \<noteq> [] then load_batch (logged db) s else s)))"
  by (simp add: import_csv_def Let_def logged_def split: sum.splits prod.splits)

lemma chunk_count:
  fixes n k b N :: nat
  assumes "0 < n" "b < n" "k * n + b = N"
  shows "k = N div n \<and> b = N mod n"
  using assms by (metis add.commute div_mult_self3 div_less mod_mult_self3 mod_less add_0 less_numeral_extra(3))

lemma length_concat_same:
  "\<forall>c \<in> set calls. length (snd c) = n \<Longrightarrow> length (concat (map snd calls)) = length calls * n"
  by (induction calls) auto

lemma map_length_same:
  "\<forall>c \<in> set calls. length (snd c) = n \<Longrightarrow> map (\<lambda>c. length (snd c)) calls = replicate (length calls) n"
  by (induction calls) auto

text \<open>
  Claim C6. Batch accumulation, for every batch size of at least 1 and every source of
  \<open>N\<close> records that the reader yields without raising, observed on the statements
  that the run sends to the store (whatever the store answers): the Loader is invoked on
  \<open>N div batch_size\<close> batches of exactly \<open>batch_size\<close> records, then on one final batch
  of \<open>N mod batch_size\<close> records when that is not 0 and on no further batch when it
  is 0; and the records of the batches, taken in the order of the calls, are the mapped
  records of the source in the order of the source.
\<close>

theorem batches_sent:
  assumes "1 \<le> batch_size"
  shows "map (\<lambda>c. length (snd c))
           (snd (final_connection (import_csv (logged db) (map Inr rows) batch_size (conn, []))))
         = replicate (length rows div nat batch_size) (nat batch_size)
             @ (if length rows mod nat batch_size = 0 then []
                else [length rows mod nat batch_size])
       \<and> concat (map snd
           (snd (final_connection (import_csv (logged db) (map Inr rows) batch_size (conn, [])))))
         = map (\<lambda>row. map snd (map_row row)) rows"
proof -
  let ?n = "nat batch_size"
  let ?N = "length rows"
  have n: "0 < ?n" using assms by simp
  have "\<forall>x \<in> set (map Inr rows :: (py_error + source_record) list). \<not> isl x" by auto
  then obtain s where s: "import_rows (logged db) batch_size (map Inr rows) (initial_state (conn, [])) = Inr s"
    using import_rows_no_read_error by blast
  have inv: "int (length (batch s)) < batch_size"
    "\<forall>row \<in> set (batch s). map fst row = map snd COLUMN_MAPPING"
    "\<forall>c \<in> set (snd (connection s)). length (snd c) = ?n"
    "concat (map snd (snd (connection s))) @ map (map snd) (batch s)
       = map (\<lambda>row. map snd (map_row row)) rows"
    using import_rows_logged_full[OF assms s] assms by (simp_all add: initial_state_def)
  let ?calls = "snd (connection s)"
  have "length (concat (map snd ?calls) @ map (map snd) (batch s)) = ?N"
    unfolding inv(4) by simp
  then have count: "length ?calls * ?n + length (batch s) = ?N"
    using length_concat_same[OF inv(3)] by simp
  have b: "length (batch s) < ?n" using inv(1) by simp
  from chunk_count[OF n b count]
  have k: "length ?calls = ?N div ?n" and r: "length (batch s) = ?N mod ?n" by simp_all
  let ?final = "snd (final_connection (import_csv (logged db) (map Inr rows) batch_size (conn, [])))"
  have final: "?final = snd (connection (if batch s \<noteq> [] then load_batch (logged db) s else s))"
    using s by (simp add: logged_final_log)
  show ?thesis
  proof (cases "batch s = []")
    case True
    then have "?final = ?calls" using final by simp
    moreover have "?N mod ?n = 0" using r True by simp
    ultimately show ?thesis
      using map_length_same[OF inv(3)] k inv(4) True by simp
  next
    case False
    then have "?final = ?calls @ [(InsertIgnore ''unite_legale'' (map snd COLUMN_MAPPING)
                                (replicate (length COLUMN_MAPPING) ''%s''),
                              map (map snd) (batch s))]"
      using final logged_load_batch_mapped[OF inv(2) False, of db] by simp
    moreover have "?N mod ?n \<noteq> 0" using r False by (metis length_0_conv)
    ultimately show ?thesis
      using map_length_same[OF inv(3)] k r inv(4) by simp
  qed
qed

theorem batches_sent_witness:
  "(1::int) \<le> 1000
   \<and> map (\<lambda>c. length (snd c))
        (snd (final_connection
           (import_csv (logged (mysql_driver (\<lambda>st query vals. False)))
              (map Inr (replicate 2500 [''siren'' \<mapsto> Some ''552100554''])) 1000
              (\<lparr>rows_committed = [], rows_pending = []\<rparr>, []))))
      = [1000, 1000, 500]"
proof -
  have h: "(1::int) \<le> 1000" by simp
  have "replicate (2500 div 1000) (1000::nat) = [1000, 1000]"
    by (simp add: numeral_2_eq_2)
  with batches_sent[OF h, of "mysql_driver (\<lambda>st query vals. False)"
      "replicate 2500 [''siren'' \<mapsto> Some ''552100554'']" "\<lparr>rows_committed = [], rows_pending = []\<rparr>"]
  show ?thesis by simp
qed

lemma import_rows_logged_calls:
  assumes "import_rows (logged db) bs reader s = r"
    and "set reader \<subseteq> U"
    and "\<forall>row \<in> set (batch s). \<exists>src. Inr src \<in> U \<and> row = map_row src"
    and "\<forall>c \<in> set (snd (connection s)).
           fst c = InsertIgnore ''unite_legale'' (map snd COLUMN_MAPPING)
                     (replicate (length COLUMN_MAPPING) ''%s'')
           \<and> snd c \<noteq> []
           \<and> (\<forall>t \<in> set (snd c). \<exists>src. Inr src \<in> U \<and> t = map snd (map_row src))"
  shows "\<forall>s'. (r = Inr s' \<or> (\<exists>e. r = Inl (e, s'))) \<longrightarrow>
     (\<forall>row \<in> set (batch s'). \<exists>src. Inr src \<in> U \<and> row = map_row src)
     \<and> (\<forall>c \<in> set (snd (connection s')).
           fst c = InsertIgnore ''unite_legale'' (map snd COLUMN_MAPPING)
                     (replicate (length COLUMN_MAPPING) ''%s'')
           \<and> snd c \<noteq> []
           \<and> (\<forall>t \<in> set (snd c). \<exists>src. Inr src \<in> U \<and> t = map snd (map_row src)))"
  using assms
proof (induction reader arbitrary: s)
  case Nil
  then show ?case by auto
next
  case (Cons a reader)
  show ?case
  proof (cases a)
    case (Inl e)
    with Cons.prems show ?thesis by auto
  next
    case (Inr row)
    let ?s2 = "s\<lparr>total_rows := total_rows s + 1, batch := batch s @ [map_row row]\<rparr>"
    have inU: "Inr row \<in> U" using Cons.prems(2) Inr by simp
    have rest: "set reader \<subseteq> U" using Cons.prems(2) by simp
    have b2: "\<forall>r \<in> set (batch ?s2). \<exists>src. Inr src \<in> U \<and> r = map_row src"
      using Cons.prems(3) inU by auto
    have u2: "\<forall>r \<in> set (batch ?s2). map fst r = map snd COLUMN_MAPPING"
      using b2 by (auto simp: map_row_keys)
    have ne: "batch ?s2 \<noteq> []" by simp
    show ?thesis
    proof (cases "int (length (batch ?s2)) \<ge> bs")
      case True
      let ?s3 = "(load_batch (logged db) ?s2)\<lparr>batch := []\<rparr>"
      have run: "import_rows (logged db) bs reader ?s3 = r"
        using Cons.prems(1) Inr True by (simp add: Let_def)
      have calls: "snd (connection ?s3) = snd (connection s)
          @ [(InsertIgnore ''unite_legale'' (map snd COLUMN_MAPPING)
                (replicate (length COLUMN_MAPPING) ''%s''), map (map snd) (batch ?s2))]"
        using logged_load_batch_mapped[OF u2 ne, of db] by simp
      have b3: "\<forall>r \<in> set (batch ?s3). \<exists>src. Inr src \<in> U \<and> r = map_row src" by simp
      have c3: "\<forall>c \<in> set (snd (connection ?s3)).
           fst c = InsertIgnore ''unite_legale'' (map snd COLUMN_MAPPING)
                     (replicate (length COLUMN_MAPPING) ''%s'')
           \<and> snd c \<noteq> []
           \<and> (\<forall>t \<in> set (snd c). \<exists>src. Inr src \<in> U \<and> t = map snd (map_row src))"
        unfolding calls using Cons.prems(4) b2 by auto
      from Cons.IH[OF run rest b3 c3] show ?thesis .
    next
      case False
      have run: "import_rows (logged db) bs reader ?s2 = r"
        using Cons.prems(1) Inr False by (simp add: Let_def)
      have c2: "\<forall>c \<in> set (snd (connection ?s2)).
           fst c = InsertIgnore ''unite_legale'' (map snd COLUMN_MAPPING)
                     (replicate (length COLUMN_MAPPING) ''%s'')
           \<and> snd c \<noteq> []
           \<and> (\<forall>t \<in> set (snd c). \<exists>src. Inr src \<in> U \<and> t = map snd (map_row src))"
        using Cons.prems(4) by simp
      from Cons.IH[OF run rest b2 c2] show ?thesis .
    qed
  qed
qed

lemma logged_insert_batch_mapped:
  "rows \<noteq> [] \<Longrightarrow> \<forall>row \<in> set rows. map fst row = map snd COLUMN_MAPPING \<Longrightarrow>
   insert_batch (logged db) cl rows =
     (fst (insert_batch db (fst cl) rows),
      snd (insert_batch db (fst cl) rows),
      snd cl @ [(InsertIgnore ''unite_legale'' (map snd COLUMN_MAPPING)
                   (replicate (length COLUMN_MAPPING) ''%s''),
                 map (map snd) rows)])"
  using insert_batch_uniform[of rows "map snd COLUMN_MAPPING" "logged db" cl]
    insert_batch_uniform[of rows "map snd COLUMN_MAPPING" db "fst cl"] distinct_target_columns
  by (simp add: logged_def split: sum.splits prod.splits)

lemma logged_simps:
  "commit (logged db) cl =
     (case commit db (fst cl) of
        Inl (e, conn') \<Rightarrow> Inl (e, (conn', snd cl))
      | Inr conn' \<Rightarrow> Inr (conn', snd cl))"
  "rollback (logged db) cl = (rollback db (fst cl), snd cl)"
  by (simp_all add: logged_def)

text \<open>
  Claim C8. Batch shape: every statement that a run sends names the target columns of
  the translation table, in the order of the table, and every tuple of its batch is,
  column by column under these names, one mapped record of the source; the batch is
  never empty. For any batch made of mapped records, every record has the key list of
  the first one, which is the list of the table, so that preparing the values raises no
  \<open>KeyError\<close> and yields the values of each record in the order of the statement's
  columns.
\<close>

theorem batch_shape:
  "(\<forall>c \<in> set (snd (final_connection (import_csv (logged db) reader batch_size (conn, [])))).
      fst c = InsertIgnore ''unite_legale'' (map snd COLUMN_MAPPING)
                (replicate (length COLUMN_MAPPING) ''%s'')
      \<and> snd c \<noteq> []
      \<and> (\<forall>t \<in> set (snd c).
            \<exists>src. Inr src \<in> set reader \<and> zip (map snd COLUMN_MAPPING) t = map_row src))
   \<and> (\<forall>rows. rows \<noteq> [] \<and> (\<forall>row \<in> set rows. \<exists>src. row = map_row src)
        \<longrightarrow> (\<forall>row \<in> set rows. map fst row = map fst (hd rows))
          \<and> map fst (hd rows) = map snd COLUMN_MAPPING
          \<and> batch_values (map fst (hd rows)) rows = Inr (map (map snd) rows))"
proof -
  let ?Q = "InsertIgnore ''unite_legale'' (map snd COLUMN_MAPPING)
                (replicate (length COLUMN_MAPPING) ''%s'')"
  let ?good = "\<lambda>c. fst c = ?Q \<and> snd c \<noteq> []
      \<and> (\<forall>t \<in> set (snd c).
            \<exists>src. Inr src \<in> set (reader :: (py_error + source_record) list)
              \<and> t = map snd (map_row src))"
  let ?r = "import_rows (logged db) batch_size reader (initial_state (conn, []))"
  let ?final = "snd (final_connection (import_csv (logged db) reader batch_size (conn, [])))"
  have inv: "\<forall>s'. (?r = Inr s' \<or> (\<exists>e. ?r = Inl (e, s'))) \<longrightarrow>
     (\<forall>row \<in> set (batch s'). \<exists>src. Inr src \<in> set reader \<and> row = map_row src)
     \<and> (\<forall>c \<in> set (snd (connection s')). ?good c)"
  proof (rule import_rows_logged_calls[OF refl subset_refl])
    show "\<forall>row \<in> set (batch (initial_state (conn, []))). \<exists>src. Inr src \<in> set reader \<and> row = map_row src"
      by (simp add: initial_state_def)
    show "\<forall>c\<in>set (snd (connection (initial_state (conn, [])))). ?good c"
      by (simp add: initial_state_def)
  qed
  have good: "\<forall>c \<in> set ?final. ?good c"
  proof (cases ?r)
    case (Inl x)
    obtain e s where x: "x = (e, s)" by (cases x)
    have "?final = snd (connection s)" using Inl x by (simp add: logged_final_log)
    with inv Inl x show ?thesis by auto
  next
    case (Inr s)
    have b: "\<forall>row \<in> set (batch s). \<exists>src. Inr src \<in> set reader \<and> row = map_row src"
      and c: "\<forall>c \<in> set (snd (connection s)). ?good c"
      using inv Inr by auto
    show ?thesis
    proof (cases "batch s = []")
      case True
      then have "?final = snd (connection s)" using Inr by (simp add: logged_final_log)
      with c show ?thesis by simp
    next
      case False
      have u: "\<forall>row \<in> set (batch s). map fst row = map snd COLUMN_MAPPING"
        using b by (auto simp: map_row_keys)
      have "?final = snd (connection s) @ [(?Q, map (map snd) (batch s))]"
        using Inr False logged_load_batch_mapped[OF u False, of db] by (simp add: logged_final_log)
      with c b False show ?thesis by auto
    qed
  qed
  have first: "fst c = ?Q \<and> snd c \<noteq> []
      \<and> (\<forall>t \<in> set (snd c).
            \<exists>src. Inr src \<in> set reader \<and> zip (map snd COLUMN_MAPPING) t = map_row src)"
    if c: "c \<in> set ?final" for c
  proof -
    from good c have g: "?good c" by blast
    have "\<exists>src. Inr src \<in> set reader \<and> zip (map snd COLUMN_MAPPING) t = map_row src"
      if "t \<in> set (snd c)" for t
    proof -
      from g that obtain src where "Inr src \<in> set reader" "t = map snd (map_row src)" by blast
      then show ?thesis using zip_keys_values[OF map_row_keys, of src] by blast
    qed
    with g show ?thesis by blast
  qed
  have second: "(\<forall>row \<in> set rows. map fst row = map fst (hd rows))
          \<and> map fst (hd rows) = map snd COLUMN_MAPPING
          \<and> batch_values (map fst (hd rows)) rows = Inr (map (map snd) rows)"
    if a: "rows \<noteq> [] \<and> (\<forall>row \<in> set rows. \<exists>src. row = map_row src)"
    for rows :: "target_record list"
  proof -
    from a have u: "\<forall>row \<in> set rows. map fst row = map snd COLUMN_MAPPING"
      by (auto simp: map_row_keys)
    from a have "hd rows \<in> set rows" by simp
    with u have h: "map fst (hd rows) = map snd COLUMN_MAPPING" by blast
    have "batch_values (map fst (hd rows)) rows = Inr (map (map snd) rows)"
      unfolding h using batch_values_uniform[OF u distinct_target_columns] .
    with u h show ?thesis by simp
  qed
  from first second show ?thesis by blast
qed

theorem batch_shape_witness:
  "snd (final_connection
      (import_csv (logged (mysql_driver (\<lambda>st query vals. False)))
         [Inr [''siren'' \<mapsto> Some ''552100554''], Inr [''siren'' \<mapsto> Some ''542065479''],
          Inr [''siren'' \<mapsto> Some ''775670417'']] 2
         (\<lparr>rows_committed = [], rows_pending = []\<rparr>, [])))
    = [(InsertIgnore ''unite_legale'' (map snd COLUMN_MAPPING)
          (replicate (length COLUMN_MAPPING) ''%s''),
        [map snd (map_row [''siren'' \<mapsto> Some ''552100554'']),
         map snd (map_row [''siren'' \<mapsto> Some ''542065479''])]),
       (InsertIgnore ''unite_legale'' (map snd COLUMN_MAPPING)
          (replicate (length COLUMN_MAPPING) ''%s''),
        [map snd (map_row [''siren'' \<mapsto> Some ''775670417''])])]
   \<and> (\<exists>src. Inr src \<in> set ([Inr [''siren'' \<mapsto> Some ''552100554''],
                                Inr [''siren'' \<mapsto> Some ''542065479''],
                                Inr [''siren'' \<mapsto> Some ''775670417'']]
                               :: (py_error + source_record) list)
          \<and> zip (map snd COLUMN_MAPPING) (map snd (map_row [''siren'' \<mapsto> Some ''775670417'']))
              = map_row src)
   \<and> batch_values (map snd COLUMN_MAPPING)
        [map_row [''siren'' \<mapsto> Some ''552100554''], map_row [''siren'' \<mapsto> Some ''542065479'']]
      = Inr [map snd (map_row [''siren'' \<mapsto> Some ''552100554'']),
             map snd (map_row [''siren'' \<mapsto> Some ''542065479''])]"
proof -
  let ?db = "mysql_driver (\<lambda>st query vals. False)"
  let ?r1 = "[''siren'' \<mapsto> Some ''552100554''] :: source_record"
  let ?r2 = "[''siren'' \<mapsto> Some ''542065479''] :: source_record"
  let ?r3 = "[''siren'' \<mapsto> Some ''775670417''] :: source_record"
  let ?reader = "[Inr ?r1, Inr ?r2, Inr ?r3] :: (py_error + source_record) list"
  let ?cl = "(\<lparr>rows_committed = [], rows_pending = []\<rparr>, []) :: mysql \<times> call list"
  let ?Q = "InsertIgnore ''unite_legale'' (map snd COLUMN_MAPPING)
              (replicate (length COLUMN_MAPPING) ''%s'')"
  let ?c2 = "(?Q, [map snd (map_row ?r3)])"
  have calls: "snd (final_connection (import_csv (logged ?db) ?reader 2 ?cl))
      = [(?Q, [map snd (map_row ?r1), map snd (map_row ?r2)]), ?c2]"
    by (simp add: run_simps logged_insert_batch_mapped logged_simps)
  note t = batch_shape[of ?db ?reader 2 "\<lparr>rows_committed = [], rows_pending = []\<rparr>"]
  have in_calls: "?c2 \<in> set (snd (final_connection (import_csv (logged ?db) ?reader 2 ?cl)))"
    unfolding calls by simp
  have in_batch: "map snd (map_row ?r3) \<in> set (snd ?c2)" by simp
  have a: "\<exists>src. Inr src \<in> set ?reader
      \<and> zip (map snd COLUMN_MAPPING) (map snd (map_row ?r3)) = map_row src"
    using t[THEN conjunct1, THEN bspec, OF in_calls, THEN conjunct2, THEN conjunct2,
        THEN bspec, OF in_batch] .
  have ne: "[map_row ?r1, map_row ?r2] \<noteq> []
      \<and> (\<forall>row \<in> set [map_row ?r1, map_row ?r2]. \<exists>src. row = map_row src)"
    by auto
  have b: "batch_values (map snd COLUMN_MAPPING) [map_row ?r1, map_row ?r2]
      = Inr [map snd (map_row ?r1), map snd (map_row ?r2)]"
    using t[THEN conjunct2, rule_format, OF ne] by (simp add: map_row_keys)
  show ?thesis using calls a b by (intro conjI)
qed

section \<open>The page count\<close>

lemma round_half_even_le:
  "x \<le> of_int N \<Longrightarrow> round_half_even x \<le> N"
proof -
  assume a: "x \<le> of_int N"
  show ?thesis
  proof (cases "x = of_int N")
    case True
    then show ?thesis by (simp add: round_half_even_def)
  next
    case False
    with a have "x < of_int N" by simp
    then have "\<lfloor>x\<rfloor> < N" by (simp add: floor_less_iff)
    then show ?thesis by (auto simp: round_half_even_def Let_def)
  qed
qed

lemma round_half_even_ge:
  "of_int N + 1 / 2 < x \<Longrightarrow> N + 1 \<le> round_half_even x"
proof -
  assume a: "of_int N + 1 / 2 < x"
  have fN: "N \<le> \<lfloor>x\<rfloor>" using a by (simp add: le_floor_iff)
  show ?thesis
  proof (cases "N < \<lfloor>x\<rfloor>")
    case True
    then show ?thesis by (auto simp: round_half_even_def Let_def)
  next
    case False
    with fN have "\<lfloor>x\<rfloor> = N" by simp
    then show ?thesis using a by (auto simp: round_half_even_def Let_def)
  qed
qed

lemma round_half_even_of_int: "round_half_even (of_int N) = N"
  by (simp add: round_half_even_def)

lemma round_half_even_mono_int:
  "of_int N \<le> x \<Longrightarrow> N \<le> round_half_even x"
proof -
  assume "of_int N \<le> x"
  then have "N \<le> \<lfloor>x\<rfloor>" by (simp add: le_floor_iff)
  then show ?thesis by (auto simp: round_half_even_def Let_def)
qed

lemma power_int_2_pos: "0 < (2::rat) powi k"
  by simp

lemma of_int_pow2: "(of_int (2 ^ n) :: rat) = 2 powi int n"
  by simp

lemma floor_log2_bounds:
  assumes "0 < p" "0 < q"
  shows "2 powi floor_log2 p q \<le> (of_int p / of_int q :: rat)
       \<and> (of_int p / of_int q :: rat) < 2 powi (floor_log2 p q + 1)"
proof -
  let ?x = "of_int p / of_int q :: rat"
  let ?d = "bitlen p - bitlen q"
  have bp: "1 \<le> bitlen p" "1 \<le> bitlen q"
    using assms by (simp_all add: bitlen_alt_def)
  have p: "(2::rat) powi (bitlen p - 1) \<le> of_int p" "of_int p < (2::rat) powi bitlen p"
  proof -
    from bitlen_bounds[OF assms(1)] have "2 ^ nat (bitlen p - 1) \<le> p" "p < 2 ^ nat (bitlen p)" by auto
    then have "(of_int (2 ^ nat (bitlen p - 1)) :: rat) \<le> of_int p"
      "(of_int p :: rat) < of_int (2 ^ nat (bitlen p))"
      by (simp_all only: of_int_le_iff of_int_less_iff)
    then show "(2::rat) powi (bitlen p - 1) \<le> of_int p" "of_int p < (2::rat) powi bitlen p"
      using bp by (simp_all add: power_int_def)
  qed
  have q: "(2::rat) powi (bitlen q - 1) \<le> of_int q" "of_int q < (2::rat) powi bitlen q"
  proof -
    from bitlen_bounds[OF assms(2)] have "2 ^ nat (bitlen q - 1) \<le> q" "q < 2 ^ nat (bitlen q)" by auto
    then have "(of_int (2 ^ nat (bitlen q - 1)) :: rat) \<le> of_int q"
      "(of_int q :: rat) < of_int (2 ^ nat (bitlen q))"
      by (simp_all only: of_int_le_iff of_int_less_iff)
    then show "(2::rat) powi (bitlen q - 1) \<le> of_int q" "of_int q < (2::rat) powi bitlen q"
      using bp by (simp_all add: power_int_def)
  qed
  have qpos: "(0::rat) < of_int q" using assms by simp
  have up: "?x < 2 powi (?d + 1)"
  proof -
    have "?x < 2 powi bitlen p / 2 powi (bitlen q - 1)"
      using p(2) q(1) qpos power_int_2_pos[of "bitlen q - 1"]
      by (meson frac_less less_eq_rat_def of_int_0_le_iff assms(1) order_less_imp_le)
    also have "\<dots> = 2 powi (?d + 1)"
      by (simp add: power_int_diff [symmetric] algebra_simps)
    finally show ?thesis .
  qed
  have low: "2 powi (?d - 1) \<le> ?x"
  proof -
    have "2 powi (bitlen p - 1) / 2 powi bitlen q \<le> ?x"
    proof (rule frac_le)
      show "(0::rat) \<le> of_int p" using assms(1) by simp
      show "(2::rat) powi (bitlen p - 1) \<le> of_int p" by (rule p(1))
      show "(0::rat) < of_int q" by (rule qpos)
      show "(of_int q :: rat) \<le> 2 powi bitlen q" using q(2) by simp
    qed
    moreover have "2 powi (bitlen p - 1) / 2 powi bitlen q = (2::rat) powi (?d - 1)"
      by (simp add: power_int_diff [symmetric] algebra_simps)
    ultimately show ?thesis by simp
  qed
  show ?thesis
  proof (cases "2 powi ?d \<le> ?x")
    case True
    then show ?thesis using up by (simp add: floor_log2_def Let_def)
  next
    case False
    then show ?thesis using low by (simp add: floor_log2_def Let_def)
  qed
qed

lemma nearest_double_ceiling:
  assumes a: "0 < a" "a < 2 ^ 53" and b: "0 < b"
    and normal: "2 powi (- 1022) \<le> (of_int a / of_int b :: rat)"
  shows "\<lceil>nearest_double a b\<rceil> = \<lceil>(of_int a / of_int b :: rat)\<rceil>"
proof -
  let ?x = "of_int a / of_int b :: rat"
  let ?e = "floor_log2 a b"
  let ?c = "\<lceil>?x\<rceil>"
  note eb = floor_log2_bounds[OF a(1) b]
  have bpos: "(0::rat) < of_int b" using b by simp
  have xpos: "0 < ?x" using a b by simp
  have x_le_a: "?x \<le> of_int a"
  proof -
    have "(1::rat) \<le> of_int b" using b by simp
    then show ?thesis using a(1) by (simp add: divide_le_eq mult_le_cancel_left1)
  qed
  have e_lo: "- 1022 \<le> ?e"
  proof (rule ccontr)
    assume "\<not> - 1022 \<le> ?e"
    then have "?e + 1 \<le> - 1022" by simp
    then have "(2::rat) powi (?e + 1) \<le> 2 powi (- 1022)"
      by (intro power_int_increasing) simp_all
    with eb normal show False by simp
  qed
  have e_hi: "?e \<le> 52"
  proof (rule ccontr)
    assume "\<not> ?e \<le> 52"
    then have "53 \<le> ?e" by simp
    then have "(2::rat) powi 53 \<le> 2 powi ?e"
      by (intro power_int_increasing) simp_all
    moreover have "(of_int a :: rat) < 2 powi 53"
    proof -
      have "(of_int a :: rat) < of_int (2 ^ 53)" using a(2) by (simp only: of_int_less_iff)
      then show ?thesis by simp
    qed
    ultimately show False using eb x_le_a by simp
  qed
  define K :: int where "K = 2 ^ nat (52 - ?e)"
  have Kpos: "0 < K" by (simp add: K_def)
  have ulp: "(2::rat) powi (?e - 52) = 1 / of_int K"
  proof -
    have "(2::rat) powi (?e - 52) = 2 powi (- (52 - ?e))" by simp
    also have "\<dots> = inverse (2 powi (52 - ?e))" by (rule power_int_minus)
    also have "(2::rat) powi (52 - ?e) = of_int K"
      using e_hi by (simp add: K_def power_int_def)
    finally show ?thesis by (simp add: inverse_eq_divide)
  qed
  define n where "n = round_half_even (?x * of_int K)"
  have nd: "nearest_double a b = of_int n / of_int K"
    using e_lo ulp by (simp add: nearest_double_def Let_def max_def n_def)
  have Kr: "(0::rat) < of_int K" using Kpos by simp
  have upper: "n \<le> ?c * K"
  proof -
    have "?x \<le> of_int ?c" by (rule le_of_int_ceiling)
    then have "?x * of_int K \<le> of_int ?c * of_int K"
      using Kr by (intro mult_right_mono) simp_all
    then have "?x * of_int K \<le> of_int (?c * K)" by (simp only: of_int_mult)
    then show ?thesis unfolding n_def by (rule round_half_even_le)
  qed
  have lower: "(?c - 1) * K + 1 \<le> n"
  proof (cases "?x = of_int ?c")
    case True
    then have "?x * of_int K = of_int (?c * K)" by simp
    then have "n = ?c * K" unfolding n_def by (simp only: round_half_even_of_int)
    then show ?thesis using Kpos by (simp add: algebra_simps)
  next
    case False
    have lt: "of_int (?c - 1) < ?x" using ceiling_correct[of ?x] by linarith
    have num: "1 \<le> a - (?c - 1) * b"
    proof -
      have "of_int ((?c - 1) * b) < (of_int a :: rat)"
        using lt bpos by (simp add: pos_less_divide_eq)
      then have "(?c - 1) * b < a" by (simp only: of_int_less_iff)
      then show ?thesis by simp
    qed
    have b_small: "(of_int b :: rat) < 2 * of_int K"
    proof -
      have "2 powi ?e * of_int b \<le> (of_int a :: rat)"
        using eb bpos by (simp add: pos_le_divide_eq)
      also have "\<dots> < 2 powi 53"
      proof -
        have "(of_int a :: rat) < of_int (2 ^ 53)" using a(2) by (simp only: of_int_less_iff)
        then show ?thesis by simp
      qed
      also have "(2::rat) powi 53 = 2 powi ?e * 2 powi (53 - ?e)"
        using power_int_add[of "2::rat" ?e "53 - ?e"] by simp
      finally have "(of_int b :: rat) < 2 powi (53 - ?e)"
        using power_int_2_pos[of ?e] by simp
      also have "(2::rat) powi (53 - ?e) = 2 powi 1 * 2 powi (52 - ?e)"
        using power_int_add[of "2::rat" 1 "52 - ?e"] by (simp add: algebra_simps)
      also have "(2::rat) powi (52 - ?e) = of_int K"
        using e_hi by (simp add: K_def power_int_def)
      finally show ?thesis by simp
    qed
    have "?x - of_int (?c - 1) = of_int (a - (?c - 1) * b) / of_int b"
      using bpos by (simp add: field_simps)
    also have "\<dots> \<ge> 1 / of_int b"
    proof -
      have "(1::rat) \<le> of_int (a - (?c - 1) * b)" using num by (simp only: of_int_1_le_iff)
      then show ?thesis using bpos by (simp add: divide_le_cancel)
    qed
    finally have gap: "1 / of_int b \<le> ?x - of_int (?c - 1)" .
    have "1 / 2 < of_int K / (of_int b :: rat)"
      using b_small bpos by (simp add: field_simps)
    also have "\<dots> = (1 / of_int b) * of_int K" by simp
    also have "\<dots> \<le> (?x - of_int (?c - 1)) * of_int K"
      using gap Kr by (simp only: mult_le_cancel_right_pos)
    finally have "of_int ((?c - 1) * K) + 1 / 2 < ?x * of_int K"
      by (simp add: algebra_simps)
    then show ?thesis unfolding n_def by (rule round_half_even_ge)
  qed
  have "of_int ?c - 1 < (of_int n / of_int K :: rat) \<and> (of_int n / of_int K :: rat) \<le> of_int ?c"
  proof
    have "(?c - 1) * K < n" using lower by simp
    then have "(of_int ((?c - 1) * K) :: rat) < of_int n" by (simp only: of_int_less_iff)
    then have "(of_int ?c - 1) * of_int K < (of_int n :: rat)" by simp
    then show "of_int ?c - 1 < (of_int n / of_int K :: rat)"
      using Kr by (simp only: pos_less_divide_eq)
    have "(of_int n :: rat) \<le> of_int (?c * K)" using upper by (simp only: of_int_le_iff)
    then have "(of_int n :: rat) \<le> of_int ?c * of_int K" by (simp only: of_int_mult)
    then show "(of_int n / of_int K :: rat) \<le> of_int ?c"
      using Kr by (simp only: pos_divide_le_eq)
  qed
  then have "\<lceil>(of_int n / of_int K :: rat)\<rceil> = ?c"
    by (intro ceiling_unique) simp_all
  then show ?thesis by (simp only: nd)
qed

lemma nearest_double_no_overflow:
  assumes a: "0 < a" "a < 2 ^ 53" and b: "0 < b"
    and normal: "2 powi (- 1022) \<le> (of_int a / of_int b :: rat)"
  shows "nearest_double a b < 2 powi 1024"
proof -
  let ?x = "of_int a / of_int b :: rat"
  have "?x \<le> of_int a"
  proof -
    have "(1::rat) \<le> of_int b" using b by simp
    then show ?thesis using a(1) by (simp add: divide_le_eq mult_le_cancel_left1)
  qed
  then have "\<lceil>?x\<rceil> \<le> a" by (simp add: ceiling_le_iff)
  then have "\<lceil>nearest_double a b\<rceil> \<le> a"
    using nearest_double_ceiling[OF assms] by simp
  then have "nearest_double a b \<le> of_int a" by (simp add: ceiling_le_iff)
  also have "(of_int a :: rat) < of_int (2 ^ 53)" using a(2) by (simp only: of_int_less_iff)
  also have "(of_int (2 ^ 53) :: rat) \<le> 2 powi 1024" by simp
  finally show ?thesis .
qed

lemma compute_total_pages_exact:
  assumes "0 < total_count" "total_count < 2 ^ 53" "1 \<le> limit" "limit \<le> 2 ^ 1022"
  shows "compute_total_pages total_count limit
           = Inr \<lceil>(of_int total_count / of_int limit :: rat)\<rceil>"
proof -
  have l: "0 < limit" using assms(3) by simp
  have normal: "2 powi (- 1022) \<le> (of_int total_count / of_int limit :: rat)"
  proof -
    have "(of_int limit :: rat) \<le> of_int (2 ^ 1022)" using assms(4) by (simp only: of_int_le_iff)
    then have "(of_int limit :: rat) \<le> 2 powi 1022" by simp
    moreover have "(1::rat) \<le> of_int total_count" using assms(1) by simp
    moreover have "(0::rat) < of_int limit" using l by simp
    ultimately have "1 / 2 powi 1022 \<le> (of_int total_count / of_int limit :: rat)"
      by (intro frac_le) simp_all
    moreover have "(2::rat) powi (- 1022) = 1 / 2 powi 1022"
      by (simp add: power_int_minus inverse_eq_divide)
    ultimately show ?thesis by simp
  qed
  have "\<not> 2 powi 1024 \<le> nearest_double total_count limit"
    using nearest_double_no_overflow[OF assms(1,2) l normal] by simp
  then show ?thesis
    using assms(1) l nearest_double_ceiling[OF assms(1,2) l normal]
    by (simp add: compute_total_pages_def py_truediv_def math_ceil_def Let_def)
qed

lemma floor_log2_unique:
  assumes "0 < p" "0 < q"
    and "2 powi e \<le> (of_int p / of_int q :: rat)" "(of_int p / of_int q :: rat) < 2 powi (e + 1)"
  shows "floor_log2 p q = e"
proof -
  note b = floor_log2_bounds[OF assms(1,2)]
  have "\<not> floor_log2 p q < e"
  proof
    assume "floor_log2 p q < e"
    then have "floor_log2 p q + 1 \<le> e" by simp
    then have "(2::rat) powi (floor_log2 p q + 1) \<le> 2 powi e"
      by (intro power_int_increasing) simp_all
    with b assms(3) show False by simp
  qed
  moreover have "\<not> e < floor_log2 p q"
  proof
    assume "e < floor_log2 p q"
    then have "e + 1 \<le> floor_log2 p q" by simp
    then have "(2::rat) powi (e + 1) \<le> 2 powi floor_log2 p q"
      by (intro power_int_increasing) simp_all
    with b assms(4) show False by simp
  qed
  ultimately show ?thesis by simp
qed

lemma round_half_even_tie_even:
  "x = of_int f + 1 / 2 \<Longrightarrow> even f \<Longrightarrow> round_half_even x = f"
proof -
  assume x: "x = of_int f + 1 / 2" and f: "even f"
  have "\<lfloor>x\<rfloor> = f" unfolding x by (rule floor_unique) simp_all
  then show ?thesis using f by (simp add: round_half_even_def x)
qed

lemma round_half_even_small:
  "0 \<le> x \<Longrightarrow> x < 1 / 2 \<Longrightarrow> round_half_even x = 0"
proof -
  assume x: "0 \<le> x" "x < 1 / 2"
  have "\<lfloor>x\<rfloor> = 0" by (rule floor_unique) (use x in simp_all)
  then show ?thesis using x by (simp add: round_half_even_def)
qed

lemma total_pages_beyond_53_bits:
  "compute_total_pages 9007199254740993 1 = Inr 9007199254740992"
proof -
  have e: "floor_log2 9007199254740993 1 = 53"
    by (rule floor_log2_unique) simp_all
  have r: "round_half_even (9007199254740993 / 2) = 4503599627370496"
    by (rule round_half_even_tie_even) simp_all
  have "nearest_double 9007199254740993 1 = 9007199254740992"
    unfolding nearest_double_def Let_def e by (simp add: r)
  then show ?thesis
    by (simp add: compute_total_pages_def py_truediv_def math_ceil_def Let_def)
qed

lemma total_pages_underflow:
  "compute_total_pages 1 (2 ^ 1076) = Inr 0"
proof -
  have e: "floor_log2 1 (2 ^ 1076) = - 1076"
    by (rule floor_log2_unique) (simp_all add: power_int_minus inverse_eq_divide)
  have r: "round_half_even (of_int 1 / of_int (2 ^ 1076) / 2 powi (max (- 1076) (- 1022) - 52)) = 0"
    by (rule round_half_even_small) (simp_all add: power_int_minus inverse_eq_divide)
  have "nearest_double 1 (2 ^ 1076) = 0"
    unfolding nearest_double_def Let_def e r by simp
  then have "py_truediv 1 (2 ^ 1076) = Inr 0"
    unfolding py_truediv_def Let_def by simp
  then show ?thesis
    unfolding compute_total_pages_def by (simp add: math_ceil_def)
qed

lemma compute_total_pages_bounded:
  assumes "0 \<le> total_count" "total_count < 2 ^ 53" "1 \<le> limit" "limit \<le> 2 ^ 1022"
  shows "compute_total_pages total_count limit
     = Inr (if total_count = 0 then 1 else \<lceil>(of_int total_count / of_int limit :: rat)\<rceil>)"
proof (cases "total_count = 0")
  case True
  then show ?thesis by (simp add: compute_total_pages_def)
next
  case False
  with assms(1) have "0 < total_count" by simp
  from compute_total_pages_exact[OF this assms(2,3,4)] False show ?thesis by simp
qed

text \<open>
  Claim C3, as the code has it. The page count is computed through a float:
  \<open>math.ceil(total / limit)\<close> rounds the quotient to a double before taking the
  ceiling. For all \<open>0 \<le> totalItems < 2\<^sup>5\<^sup>3\<close> and \<open>1 \<le> limit \<le> 2\<^sup>1\<^sup>0\<^sup>2\<^sup>2\<close> (every limit
  that the API accepts, 1 to 100, is in this range) the rounding does not change the
  result: \<open>total_pages\<close> is 1 when \<open>totalItems = 0\<close> and the exact ceiling of
  \<open>totalItems / limit\<close> otherwise, in the metadata of api-mysql and in
  \<open>create_pagination\<close> of api-spark alike; and for every page (in particular every
  page from 1 to \<open>total_pages\<close>) \<open>has_next\<close> is \<open>page < total_pages\<close> and \<open>has_prev\<close> is
  \<open>page > 1\<close>.
\<close>

theorem total_pages_rule:
  assumes "0 \<le> total_count" "total_count < 2 ^ 53" "1 \<le> limit" "limit \<le> 2 ^ 1022"
  shows "compute_total_pages total_count limit
           = Inr (if total_count = 0 then 1
                  else \<lceil>(of_int total_count / of_int limit :: rat)\<rceil>)
       \<and> (\<exists>m. pagination_meta base_url page limit total_count = Inr m
             \<and> pg_total_pages m
                 = (if total_count = 0 then 1
                    else \<lceil>(of_int total_count / of_int limit :: rat)\<rceil>)
             \<and> pg_has_next m = (page < pg_total_pages m)
             \<and> pg_has_prev m = (page > 1))
       \<and> (\<exists>m. create_pagination page limit total_count base_url = Inr m
             \<and> pg_total_pages m
                 = (if total_count = 0 then 1
                    else \<lceil>(of_int total_count / of_int limit :: rat)\<rceil>)
             \<and> pg_has_next m = (page < pg_total_pages m)
             \<and> pg_has_prev m = (page > 1))"
  using compute_total_pages_bounded[OF assms]
  by (simp add: pagination_meta_def create_pagination_def)

theorem total_pages_rule_witness:
  "(0::int) \<le> 45 \<and> (45::int) < 2 ^ 53 \<and> (1::int) \<le> 20 \<and> (20::int) \<le> 2 ^ 1022
   \<and> compute_total_pages 45 20 = Inr 3
   \<and> (\<exists>m. pagination_meta ''http://api.siren.local/entreprises/activite/62.01Z'' 1 20 45 = Inr m
         \<and> pg_total_pages m = 3 \<and> pg_has_next m \<and> \<not> pg_has_prev m)
   \<and> (\<exists>m. create_pagination 1 20 45 ''http://api.siren.local/entreprises/activite/62.01Z'' = Inr m
         \<and> pg_total_pages m = 3 \<and> pg_has_next m \<and> \<not> pg_has_prev m)"
proof -
  have h: "(0::int) \<le> 45" "(45::int) < 2 ^ 53" "(1::int) \<le> 20" "(20::int) \<le> 2 ^ 1022"
    by simp_all
  have c: "\<lceil>(of_int 45 / of_int 20 :: rat)\<rceil> = 3"
    by (rule ceiling_unique) simp_all
  from total_pages_rule[OF h, of "''http://api.siren.local/entreprises/activite/62.01Z''" 1]
  show ?thesis unfolding c using h by auto
qed

text \<open>
  The claim as stated, for all \<open>totalItems \<ge> 0\<close> and \<open>limit \<ge> 1\<close>, fails where the
  float is not exact. For \<open>totalItems = 2\<^sup>5\<^sup>3 + 1\<close> and \<open>limit = 1\<close> the quotient is rounded
  to \<open>2\<^sup>5\<^sup>3\<close>, one page short of the ceiling. For \<open>totalItems = 1\<close> and
  \<open>limit = 2\<^sup>1\<^sup>0\<^sup>7\<^sup>6\<close> the quotient underflows to \<open>0.0\<close> and \<open>total_pages\<close> is 0 instead
  of 1.
\<close>

theorem total_pages_not_ceiling:
  "compute_total_pages 9007199254740993 1 = Inr 9007199254740992
   \<and> \<lceil>(of_int 9007199254740993 / of_int 1 :: rat)\<rceil> = 9007199254740993
   \<and> compute_total_pages 1 (2 ^ 1076) = Inr 0
   \<and> \<lceil>(of_int 1 / of_int (2 ^ 1076) :: rat)\<rceil> = 1"
proof -
  have "\<lceil>(of_int 1 / of_int (2 ^ 1076) :: rat)\<rceil> = 1"
    by (rule ceiling_unique) simp_all
  moreover have "\<lceil>(of_int 9007199254740993 / of_int 1 :: rat)\<rceil> = 9007199254740993"
    by simp
  ultimately show ?thesis
    using total_pages_beyond_53_bits total_pages_underflow by (intro conjI)
qed

section \<open>Navigation links\<close>

lemma add_links_fields:
  "first_link (add_links base_url page limit total_pages
      \<lparr>view_id = i, view_type = t, first_link = None, previous_link = None,
       next_link = None, last_link = None\<rparr>)
     = (if page > 1 then Some (page_url base_url 1 limit) else None)"
  "previous_link (add_links base_url page limit total_pages
      \<lparr>view_id = i, view_type = t, first_link = None, previous_link = None,
       next_link = None, last_link = None\<rparr>)
     = (if page > 1 then Some (page_url base_url (page - 1) limit) else None)"
  "next_link (add_links base_url page limit total_pages
      \<lparr>view_id = i, view_type = t, first_link = None, previous_link = None,
       next_link = None, last_link = None\<rparr>)
     = (if page < total_pages then Some (page_url base_url (page + 1) limit) else None)"
  "last_link (add_links base_url page limit total_pages
      \<lparr>view_id = i, view_type = t, first_link = None, previous_link = None,
       next_link = None, last_link = None\<rparr>)
     = (if page < total_pages then Some (page_url base_url total_pages limit) else None)"
  "view_id (add_links base_url page limit total_pages
      \<lparr>view_id = i, view_type = t, first_link = None, previous_link = None,
       next_link = None, last_link = None\<rparr>) = i"
  by (simp_all add: add_links_def Let_def)

text \<open>
  Claim C4. Navigation links. For every \<open>page \<ge> 1\<close> and \<open>total_pages \<ge> 1\<close>, also for a
  page beyond \<open>total_pages\<close>, \<open>create_hydra_view\<close> returns a view (never \<open>None\<close>, never
  an error) which has the first and the previous link exactly when \<open>page > 1\<close>, and the
  next and the last link exactly when \<open>page < total_pages\<close>; the links lead to page 1,
  \<open>page - 1\<close>, \<open>page + 1\<close> and \<open>total_pages\<close>. The view that \<open>create_pagination\<close> of
  api-spark builds for a non-empty base URL has its links under the same conditions,
  with the page count it has computed, and they agree with \<open>has_prev\<close> and
  \<open>has_next\<close>.
\<close>

theorem navigation_links:
  assumes "1 \<le> page" "1 \<le> total_pages"
  shows "(\<exists>v. create_hydra_view base_url page limit total_pages = Some v
            \<and> view_id v = page_url base_url page limit
            \<and> (first_link v \<noteq> None) = (page > 1)
            \<and> (previous_link v \<noteq> None) = (page > 1)
            \<and> (next_link v \<noteq> None) = (page < total_pages)
            \<and> (last_link v \<noteq> None) = (page < total_pages)
            \<and> first_link v = (if page > 1 then Some (page_url base_url 1 limit) else None)
            \<and> previous_link v
                = (if page > 1 then Some (page_url base_url (page - 1) limit) else None)
            \<and> next_link v
                = (if page < total_pages then Some (page_url base_url (page + 1) limit)
                   else None)
            \<and> last_link v
                = (if page < total_pages then Some (page_url base_url total_pages limit)
                   else None))
       \<and> (\<forall>m. create_pagination page limit total_count base_url = Inr m \<and> base_url \<noteq> ''''
            \<longrightarrow> (\<exists>v. pg_view m = Some v
                   \<and> (first_link v \<noteq> None) = (page > 1)
                   \<and> (previous_link v \<noteq> None) = (page > 1)
                   \<and> (next_link v \<noteq> None) = (page < pg_total_pages m)
                   \<and> (last_link v \<noteq> None) = (page < pg_total_pages m)
                   \<and> pg_has_prev m = (previous_link v \<noteq> None)
                   \<and> pg_has_next m = (next_link v \<noteq> None)))"
proof (intro conjI allI impI)
  show "\<exists>v. create_hydra_view base_url page limit total_pages = Some v
            \<and> view_id v = page_url base_url page limit
            \<and> (first_link v \<noteq> None) = (page > 1)
            \<and> (previous_link v \<noteq> None) = (page > 1)
            \<and> (next_link v \<noteq> None) = (page < total_pages)
            \<and> (last_link v \<noteq> None) = (page < total_pages)
            \<and> first_link v = (if page > 1 then Some (page_url base_url 1 limit) else None)
            \<and> previous_link v
                = (if page > 1 then Some (page_url base_url (page - 1) limit) else None)
            \<and> next_link v
                = (if page < total_pages then Some (page_url base_url (page + 1) limit)
                   else None)
            \<and> last_link v
                = (if page < total_pages then Some (page_url base_url total_pages limit)
                   else None)"
    using assms by (simp add: create_hydra_view_def add_links_fields)
next
  fix m
  assume a: "create_pagination page limit total_count base_url = Inr m \<and> base_url \<noteq> ''''"
  then obtain tp where tp: "compute_total_pages total_count limit = Inr tp"
    by (cases "compute_total_pages total_count limit") (auto simp: create_pagination_def)
  with a have m: "pg_total_pages m = tp" "pg_has_next m = (page < tp)" "pg_has_prev m = (page > 1)"
    "pg_view m = Some (add_links base_url page limit tp
                               \<lparr>view_id = page_url base_url page limit,
                                view_type = ''hydra:PartialCollectionView'',
                                first_link = None, previous_link = None,
                                next_link = None, last_link = None\<rparr>)"
    by (auto simp: create_pagination_def)
  show "\<exists>v. pg_view m = Some v
                   \<and> (first_link v \<noteq> None) = (page > 1)
                   \<and> (previous_link v \<noteq> None) = (page > 1)
                   \<and> (next_link v \<noteq> None) = (page < pg_total_pages m)
                   \<and> (last_link v \<noteq> None) = (page < pg_total_pages m)
                   \<and> pg_has_prev m = (previous_link v \<noteq> None)
                   \<and> pg_has_next m = (next_link v \<noteq> None)"
    by (simp add: m add_links_fields)
qed

lemma str_int_digits:
  "str_int 1 = ''1''" "str_int 2 = ''2''" "str_int 4 = ''4''" "str_int 5 = ''5''"
  "str_int 20 = ''20''"
  by (simp_all add: str_int_def str_nat.simps)

theorem navigation_links_witness:
  "(1::int) \<le> 5 \<and> (1::int) \<le> 2
   \<and> create_hydra_view ''http://api.siren.local/entreprises/activite/62.01Z'' 5 20 2
      = Some \<lparr>view_id = ''http://api.siren.local/entreprises/activite/62.01Z?page=5&limit=20'',
              view_type = ''hydra:PartialCollectionView'',
              first_link = Some ''http://api.siren.local/entreprises/activite/62.01Z?page=1&limit=20'',
              previous_link = Some ''http://api.siren.local/entreprises/activite/62.01Z?page=4&limit=20'',
              next_link = None, last_link = None\<rparr>
   \<and> (\<exists>v. create_hydra_view ''http://api.siren.local/entreprises/activite/62.01Z'' 5 20 2 = Some v
         \<and> first_link v \<noteq> None \<and> previous_link v \<noteq> None
         \<and> next_link v = None \<and> last_link v = None)
   \<and> (\<exists>m v. create_pagination 5 20 25 ''http://api.siren.local/stats/activites/count'' = Inr m
         \<and> pg_total_pages m = 2 \<and> pg_view m = Some v
         \<and> first_link v \<noteq> None \<and> previous_link v \<noteq> None
         \<and> next_link v = None \<and> last_link v = None
         \<and> pg_has_prev m \<and> \<not> pg_has_next m)"
proof -
  have h: "(1::int) \<le> 5" "(1::int) \<le> 2" by simp_all
  have v: "create_hydra_view ''http://api.siren.local/entreprises/activite/62.01Z'' 5 20 2
      = Some \<lparr>view_id = ''http://api.siren.local/entreprises/activite/62.01Z?page=5&limit=20'',
              view_type = ''hydra:PartialCollectionView'',
              first_link = Some ''http://api.siren.local/entreprises/activite/62.01Z?page=1&limit=20'',
              previous_link = Some ''http://api.siren.local/entreprises/activite/62.01Z?page=4&limit=20'',
              next_link = None, last_link = None\<rparr>"
    by (simp add: create_hydra_view_def add_links_def Let_def page_url_def str_int_digits)
  from navigation_links[OF h, THEN conjunct1,
      of "''http://api.siren.local/entreprises/activite/62.01Z''" 20]
  have "\<exists>v. create_hydra_view ''http://api.siren.local/entreprises/activite/62.01Z'' 5 20 2 = Some v
         \<and> first_link v \<noteq> None \<and> previous_link v \<noteq> None
         \<and> next_link v = None \<and> last_link v = None"
    by auto
  moreover have "\<exists>m v. create_pagination 5 20 25 ''http://api.siren.local/stats/activites/count'' = Inr m
         \<and> pg_total_pages m = 2 \<and> pg_view m = Some v
         \<and> first_link v \<noteq> None \<and> previous_link v \<noteq> None
         \<and> next_link v = None \<and> last_link v = None
         \<and> pg_has_prev m \<and> \<not> pg_has_next m"
  proof -
    have c: "\<lceil>(of_int 25 / of_int 20 :: rat)\<rceil> = 2"
      by (rule ceiling_unique) simp_all
    have "compute_total_pages 25 20 = Inr 2"
      using compute_total_pages_bounded[of 25 20] unfolding c by simp
    then obtain m where m: "create_pagination 5 20 25 ''http://api.siren.local/stats/activites/count'' = Inr m"
      and tp: "pg_total_pages m = 2"
      by (simp add: create_pagination_def)
    have ne: "''http://api.siren.local/stats/activites/count'' \<noteq> ''''" by simp
    from navigation_links[OF h, THEN conjunct2, rule_format, OF conjI, OF m ne] tp
    show ?thesis using m by auto
  qed
  ultimately show ?thesis using h v by (intro conjI)
qed

section \<open>The collection view\<close>

lemma list_response_fields:
  "list_response base_url page limit total_count entreprises = Inr v \<Longrightarrow>
   numberOfItems v = int (length entreprises)
   \<and> totalItems v = total_count
   \<and> itemListElement v = map from_entreprise entreprises
   \<and> numberOfItems v = int (length (itemListElement v))"
  by (auto simp: list_response_def Let_def split: sum.splits)

lemma list_response_returns:
  assumes "0 \<le> total_count" "total_count < 2 ^ 53" "1 \<le> limit" "limit \<le> 100"
  shows "\<exists>v. list_response base_url page limit total_count entreprises = Inr v"
proof -
  have "limit \<le> 2 ^ 1022"
  proof -
    have "(100::int) \<le> 2 ^ 7" by simp
    also have "(2::int) ^ 7 \<le> 2 ^ 1022" by (rule power_increasing) simp_all
    finally show ?thesis using assms(4) by simp
  qed
  from compute_total_pages_bounded[OF assms(1,2,3) this]
  show ?thesis by (simp add: list_response_def pagination_meta_def Let_def)
qed

text \<open>
  Claim C9. The collection view is a pure composition. Whenever one of the two list
  endpoints of api-mysql returns a view, its \<open>numberOfItems\<close> is the length of the item
  list of this page (however it compares with \<open>limit\<close>), its \<open>totalItems\<close> is the
  total that the count query gave, unchanged, and its \<open>itemListElement\<close> holds the items
  in the given order, each one converted by \<open>from_entreprise\<close>. The endpoints do
  return a view for every accepted limit (1 to 100) and every total below \<open>2\<^sup>5\<^sup>3\<close>.
\<close>

theorem collection_view:
  "(\<forall>v. get_entreprises_by_activite scheme netloc code page limit total_count entreprises = Inr v
        \<longrightarrow> numberOfItems v = int (length entreprises)
          \<and> totalItems v = total_count
          \<and> itemListElement v = map from_entreprise entreprises)
   \<and> (\<forall>v. search_entreprises_by_name scheme netloc nom page limit total_count entreprises = Inr v
        \<longrightarrow> numberOfItems v = int (length entreprises)
          \<and> totalItems v = total_count
          \<and> itemListElement v = map from_entreprise entreprises)
   \<and> (0 \<le> total_count \<and> total_count < 2 ^ 53 \<and> 1 \<le> limit \<and> limit \<le> 100
        \<longrightarrow> (\<exists>v. get_entreprises_by_activite scheme netloc code page limit total_count
                    entreprises = Inr v)
          \<and> (\<exists>v. search_entreprises_by_name scheme netloc nom page limit total_count
                    entreprises = Inr v))"
proof (intro conjI allI impI)
  fix v
  assume "get_entreprises_by_activite scheme netloc code page limit total_count entreprises = Inr v"
  from list_response_fields[OF this[unfolded get_entreprises_by_activite_def]]
  show "numberOfItems v = int (length entreprises)" "totalItems v = total_count"
    "itemListElement v = map from_entreprise entreprises"
    by simp_all
next
  fix v
  assume "search_entreprises_by_name scheme netloc nom page limit total_count entreprises = Inr v"
  from list_response_fields[OF this[unfolded search_entreprises_by_name_def]]
  show "numberOfItems v = int (length entreprises)" "totalItems v = total_count"
    "itemListElement v = map from_entreprise entreprises"
    by simp_all
next
  assume a: "0 \<le> total_count \<and> total_count < 2 ^ 53 \<and> 1 \<le> limit \<and> limit \<le> 100"
  then have b: "0 \<le> total_count" "total_count < 2 ^ 53" "1 \<le> limit" "limit \<le> 100"
    by simp_all
  show "\<exists>v. get_entreprises_by_activite scheme netloc code page limit total_count
                    entreprises = Inr v"
    unfolding get_entreprises_by_activite_def by (rule list_response_returns[OF b])
  show "\<exists>v. search_entreprises_by_name scheme netloc nom page limit total_count
                    entreprises = Inr v"
    unfolding search_entreprises_by_name_def by (rule list_response_returns[OF b])
qed

theorem collection_view_witness:
  "(0::int) \<le> 45 \<and> (45::int) < 2 ^ 53 \<and> (1::int) \<le> 20 \<and> (20::int) \<le> 100
   \<and> (\<exists>v. get_entreprises_by_activite ''http'' ''api.siren.local'' ''62.01Z'' 3 20 45
            [\<lparr>siren = ''552100554'', nom_unite_legale = None,
              denomination_unite_legale = Some ''PEUGEOT'',
              activite_principale_unite_legale = Some ''62.01Z'',
              nomenclature_activite_principale_unite_legale = Some ''NAFRev2'',
              tranche_effectifs_unite_legale = None, date_creation = None\<rparr>,
             \<lparr>siren = ''542065479'', nom_unite_legale = Some ''DUPONT'',
              denomination_unite_legale = None,
              activite_principale_unite_legale = Some ''62.01Z'',
              nomenclature_activite_principale_unite_legale = Some ''NAFRev2'',
              tranche_effectifs_unite_legale = Some ''11'',
              date_creation = Some \<lparr>year = 1999, month = 4, day = 7\<rparr>\<rparr>] = Inr v
         \<and> numberOfItems v = 2 \<and> totalItems v = 45
         \<and> map ld_identifier (itemListElement v) = [''552100554'', ''542065479''])"
proof -
  define es where "es =
            [\<lparr>siren = ''552100554'', nom_unite_legale = None,
              denomination_unite_legale = Some ''PEUGEOT'',
              activite_principale_unite_legale = Some ''62.01Z'',
              nomenclature_activite_principale_unite_legale = Some ''NAFRev2'',
              tranche_effectifs_unite_legale = None, date_creation = None\<rparr>,
             \<lparr>siren = ''542065479'', nom_unite_legale = Some ''DUPONT'',
              denomination_unite_legale = None,
              activite_principale_unite_legale = Some ''62.01Z'',
              nomenclature_activite_principale_unite_legale = Some ''NAFRev2'',
              tranche_effectifs_unite_legale = Some ''11'',
              date_creation = Some \<lparr>year = 1999, month = 4, day = 7\<rparr>\<rparr>]"
  define scheme where "scheme = ''http''"
  define netloc where "netloc = ''api.siren.local''"
  define code where "code = ''62.01Z''"
  have len: "int (length es) = 2"
    and ids: "map (ld_identifier \<circ> from_entreprise) es = [''552100554'', ''542065479'']"
    by (simp_all add: es_def from_entreprise_def)
  have h: "(0::int) \<le> 45 \<and> (45::int) < 2 ^ 53 \<and> (1::int) \<le> 20 \<and> (20::int) \<le> 100"
    by simp
  note t = collection_view[of scheme netloc code 3 20 45 es]
  from t[THEN conjunct2, THEN conjunct2, rule_format, OF h, THEN conjunct1]
  obtain v where v: "get_entreprises_by_activite scheme netloc code 3 20 45 es = Inr v" ..
  from t[THEN conjunct1, rule_format, OF v]
  have "numberOfItems v = 2 \<and> totalItems v = 45
      \<and> map ld_identifier (itemListElement v) = [''552100554'', ''542065479'']"
    by (simp add: len ids)
  with v have "get_entreprises_by_activite scheme netloc code 3 20 45 es = Inr v
         \<and> numberOfItems v = 2 \<and> totalItems v = 45
         \<and> map ld_identifier (itemListElement v) = [''552100554'', ''542065479'']"
    by (rule conjI)
  then have "\<exists>v. get_entreprises_by_activite scheme netloc code 3 20 45 es = Inr v
         \<and> numberOfItems v = 2 \<and> totalItems v = 45
         \<and> map ld_identifier (itemListElement v) = [''552100554'', ''542065479'']"
    by (rule exI[where x = v])
  then have "(0::int) \<le> 45 \<and> (45::int) < 2 ^ 53 \<and> (1::int) \<le> 20 \<and> (20::int) \<le> 100
      \<and> (\<exists>v. get_entreprises_by_activite scheme netloc code 3 20 45 es = Inr v
         \<and> numberOfItems v = 2 \<and> totalItems v = 45
         \<and> map ld_identifier (itemListElement v) = [''552100554'', ''542065479''])"
    by (rule conjI[OF h[THEN conjunct1] conjI[OF h[THEN conjunct2, THEN conjunct1]
        conjI[OF h[THEN conjunct2, THEN conjunct2, THEN conjunct1]
          conjI[OF h[THEN conjunct2, THEN conjunct2, THEN conjunct2]]]]])
  then show ?thesis
    unfolding es_def scheme_def netloc_def code_def .
qed

end
